theory Spec2Isabelle
  imports Complex_Main "HOL-Library.Word" "HOL-Library.Monad_Syntax"
begin

unbundle bit_operations_syntax

section \<open>Numeric conventions\<close>

text \<open>
  The sources compute with C++ \<open>double\<close> and \<open>std::complex<double>\<close>. A \<open>double\<close> is
  embedded as the \<open>real\<close> it denotes, a \<open>std::complex<double>\<close> as a \<open>complex\<close>. There
  is no NaN and no infinity, and the exponent range is not bounded: the embedding agrees
  with IEEE 754 binary64 as long as no result overflows or falls into the subnormal
  range.

  In the transform and in the synthesizer every arithmetic operation is the exact one
  followed by the rounding \<open>fl\<close> to the nearest number with a 53 bit significand, ties
  to the even significand, one rounding per operation (no fused multiply-add). The
  library functions \<open>sin\<close>, \<open>cos\<close> and \<open>pow\<close> are taken as correctly rounded.

  In the classifier, the peak extractor and the down-mix the operations are the exact
  ones: the differences \<open>freq - 300\<close> and the like are exact in binary64 for a frequency
  within a factor of two of the table entry, halving and the sum of two equal numbers
  are exact, and no property of the magnitude other than its order is used.

  C++ \<open>int\<close> is embedded as \<open>int\<close>; the values that occur (bit masks below 256, loop
  counters) stay far inside 32 bits. \<open>uint8_t\<close> and \<open>char\<close> are \<open>8 word\<close>.
\<close>

subsection \<open>Binary64 arithmetic\<close>

text \<open>Rounding to the nearest integer, a tie to the even one.\<close>

definition rne :: "real \<Rightarrow> int" where
  "rne x = (let f = \<lfloor>x\<rfloor>; r = x - of_int f
            in if r < 1 / 2 then f else if 1 / 2 < r then f + 1
               else if even f then f else f + 1)"

text \<open>Rounding to binary64: for \<open>2 ^ e \<le> \<bar>x\<bar> < 2 ^ (e + 1)\<close> the spacing of the
  representable numbers is \<open>2 ^ (e - 52)\<close>.\<close>

definition fl :: "real \<Rightarrow> real" where
  "fl x = (if x = 0 then 0
           else let e = \<lfloor>log 2 \<bar>x\<bar>\<rfloor> - 52
                in of_int (rne (x / 2 powr of_int e)) * 2 powr of_int e)"

definition dadd :: "real \<Rightarrow> real \<Rightarrow> real" where
  "dadd x y = fl (x + y)"

definition dsub :: "real \<Rightarrow> real \<Rightarrow> real" where
  "dsub x y = fl (x - y)"

definition dmul :: "real \<Rightarrow> real \<Rightarrow> real" where
  "dmul x y = fl (x * y)"

definition ddiv :: "real \<Rightarrow> real \<Rightarrow> real" where
  "ddiv x y = fl (x / y)"

text \<open>\<open>M_PI\<close> of \<open><cmath>\<close>: the binary64 number nearest to \<open>\<pi>\<close>,
  \<open>0x400921FB54442D18\<close>.\<close>

definition M_PI :: real where
  "M_PI = 884279719003555 / 2 ^ 48"

definition dsin :: "real \<Rightarrow> real" where
  "dsin x = fl (sin x)"

definition dcos :: "real \<Rightarrow> real" where
  "dcos x = fl (cos x)"

definition dpow :: "real \<Rightarrow> real \<Rightarrow> real" where
  "dpow x y = fl (x powr y)"

text \<open>\<open>operator+\<close>, \<open>operator-\<close> and \<open>operator*\<close> of \<open>std::complex<double>\<close>, and
  \<open>std::polar(rho, theta)\<close>, which is \<open>complex(rho * cos(theta), rho * sin(theta))\<close>.\<close>

definition cadd :: "complex \<Rightarrow> complex \<Rightarrow> complex" where
  "cadd z w = Complex (dadd (Re z) (Re w)) (dadd (Im z) (Im w))"

definition csub :: "complex \<Rightarrow> complex \<Rightarrow> complex" where
  "csub z w = Complex (dsub (Re z) (Re w)) (dsub (Im z) (Im w))"

definition cmul :: "complex \<Rightarrow> complex \<Rightarrow> complex" where
  "cmul z w = Complex (dsub (dmul (Re z) (Re w)) (dmul (Im z) (Im w)))
                      (dadd (dmul (Re z) (Im w)) (dmul (Im z) (Re w)))"

definition polar :: "real \<Rightarrow> real \<Rightarrow> complex" where
  "polar rho theta = Complex (dmul rho (dcos theta)) (dmul rho (dsin theta))"

section \<open>Bit classifier (freq\_analyzer.cpp, frequenciesToByte)\<close>

definition bitFrequencyPairs :: "(real \<times> real) list" where
  "bitFrequencyPairs =
     [(300, 500), (700, 900), (1100, 1300), (1500, 1700),
      (1900, 2100), (2300, 2500), (2700, 2900), (3100, 3300)]"

text \<open>The four locals of the outer loop body that the inner loop updates.\<close>

record bit_scan =
  bit0Detected :: bool
  bit1Detected :: bool
  closestFreq :: real
  minDiff :: real

definition scan_init :: bit_scan where
  "scan_init = \<lparr>bit0Detected = False, bit1Detected = False, closestFreq = 0, minDiff = 1000\<rparr>"

text \<open>One iteration of \<open>for (double freq : detectedFrequencies)\<close>: the two \<open>if\<close>s in
  sequence, the second one reading the \<open>minDiff\<close> the first one may have written.\<close>

definition scan_step :: "real \<times> real \<Rightarrow> bit_scan \<Rightarrow> real \<Rightarrow> bit_scan" where
  "scan_step p s freq =
     (let diff0 = \<bar>freq - fst p\<bar>;
          diff1 = \<bar>freq - snd p\<bar>;
          s1 = (if diff0 < 50 \<and> diff0 < minDiff s
                then s\<lparr>bit0Detected := True, bit1Detected := False,
                       minDiff := diff0, closestFreq := freq\<rparr>
                else s);
          s2 = (if diff1 < 50 \<and> diff1 < minDiff s1
                then s1\<lparr>bit1Detected := True, bit0Detected := False,
                        minDiff := diff1, closestFreq := freq\<rparr>
                else s1)
      in s2)"

definition scan_bit :: "real \<times> real \<Rightarrow> real list \<Rightarrow> bit_scan" where
  "scan_bit p detectedFrequencies = foldl (scan_step p) scan_init detectedFrequencies"

text \<open>First pass: \<open>bits[i] = bit1Detected ? 1 : 0\<close> and \<open>closestFreqs[i]\<close> for
  \<open>i = 0 .. 7\<close>.\<close>

definition classify_bits :: "real list \<Rightarrow> int list" where
  "classify_bits detectedFrequencies =
     map (\<lambda>i. if bit1Detected (scan_bit (bitFrequencyPairs ! i) detectedFrequencies)
              then 1 else 0) [0..<8]"

definition closestFreqs :: "real list \<Rightarrow> real list" where
  "closestFreqs detectedFrequencies =
     map (\<lambda>i. closestFreq (scan_bit (bitFrequencyPairs ! i) detectedFrequencies)) [0..<8]"

text \<open>The assembly loop: \<open>if (bits[i]) byteValue |= (1 << (7 - i))\<close>. The console
  output between the loops does not change the result and is left out.\<close>

definition assemble_step :: "int list \<Rightarrow> int \<Rightarrow> nat \<Rightarrow> int" where
  "assemble_step bits byteValue i =
     (if bits ! i \<noteq> 0 then byteValue OR push_bit (7 - i) 1 else byteValue)"

definition assemble_byte :: "int list \<Rightarrow> int" where
  "assemble_byte bits = foldl (assemble_step bits) 0 [0..<8]"

definition frequenciesToByte :: "real list \<Rightarrow> int" where
  "frequenciesToByte detectedFrequencies = assemble_byte (classify_bits detectedFrequencies)"

text \<open>Invariant of the inner loop: a position counts as detected exactly when
  \<open>minDiff\<close> has dropped below the tolerance.\<close>

definition scan_inv :: "bit_scan \<Rightarrow> bool" where
  "scan_inv s \<longleftrightarrow> ((bit0Detected s \<or> bit1Detected s) \<longleftrightarrow> minDiff s < 50)"

section \<open>Transform engine (freq\_analyzer.cpp, fft)\<close>

text \<open>The divide loop: \<open>even[i] = data[i * 2]\<close> and \<open>odd[i] = data[i * 2 + 1]\<close> for
  \<open>i < N / 2\<close>. All indices read are below \<open>N\<close>.\<close>

definition evens :: "complex list \<Rightarrow> complex list" where
  "evens data = map (\<lambda>i. data ! (i * 2)) [0..<length data div 2]"

definition odds :: "complex list \<Rightarrow> complex list" where
  "odds data = map (\<lambda>i. data ! (i * 2 + 1)) [0..<length data div 2]"

text \<open>\<open>std::polar(1.0, -2 * M_PI * k / N)\<close>, the angle computed from left to right.\<close>

definition twiddle :: "nat \<Rightarrow> nat \<Rightarrow> complex" where
  "twiddle k N = polar 1 (ddiv (dmul (dmul (- 2) M_PI) (real k)) (real N))"

text \<open>The combine loop writes \<open>data[k]\<close> and \<open>data[k + N / 2]\<close> for \<open>k < N / 2\<close> from the
  two transformed halves \<open>ev\<close> (the source's \<open>even\<close>) and \<open>od\<close> (its \<open>odd\<close>). When \<open>N\<close> is
  odd the last element \<open>data[N - 1]\<close> is written by nobody and keeps the value it had.\<close>

definition combine :: "complex list \<Rightarrow> complex list \<Rightarrow> complex list \<Rightarrow> complex list" where
  "combine data ev od =
     (let N = length data; h = N div 2
      in map (\<lambda>k. cadd (ev ! k) (cmul (twiddle k N) (od ! k))) [0..<h]
       @ map (\<lambda>k. csub (ev ! k) (cmul (twiddle k N) (od ! k))) [0..<h]
       @ drop (2 * h) data)"

text \<open>The in-place procedure, as a function from the array before to the array after.
  The recursion is on arrays of length \<open>N / 2\<close>.\<close>

function fft :: "complex list \<Rightarrow> complex list" where
  "fft data =
     (if length data \<le> 1 then data
      else combine data (fft (evens data)) (fft (odds data)))"
  by pat_completeness auto
termination
  by (relation "measure length") (auto simp: evens_def odds_def)

declare fft.simps [simp del]

text \<open>The same recursion with no termination argument supplied: a call that does not
  return has the value \<open>None\<close>.\<close>

partial_function (option) fft_rec :: "complex list \<Rightarrow> complex list option" where
  "fft_rec data =
     (if length data \<le> 1 then Some data
      else do {
        ev \<leftarrow> fft_rec (evens data);
        od \<leftarrow> fft_rec (odds data);
        Some (combine data ev od)
      })"

text \<open>Conjugate symmetry of a spectrum, bin 0 included: bin \<open>(N - k) mod N\<close> is the
  conjugate of bin \<open>k\<close>.\<close>

definition mirrored :: "complex list \<Rightarrow> bool" where
  "mirrored X \<longleftrightarrow> (\<forall>k<length X. X ! ((length X - k) mod length X) = cnj (X ! k))"

section \<open>Spectral peak extractor (freq\_analyzer.cpp, getTop8Frequencies)\<close>

datatype error =
    OutOfBounds     \<comment> \<open>a vector read past its end (undefined behaviour in C++)\<close>
  | InvalidArgument \<comment> \<open>\<open>std::invalid_argument\<close> thrown by \<open>std::stoi\<close>\<close>
  | OutOfRange      \<comment> \<open>\<open>std::out_of_range\<close> thrown by \<open>std::stoi\<close>\<close>
  | CastOverflow    \<comment> \<open>a \<open>double\<close> converted to an integer type that cannot hold it\<close>
  | DivisionByZero  \<comment> \<open>a \<open>double\<close> division by zero (infinity or NaN in C++)\<close>

text \<open>The first loop: \<open>(|fftResult[i]|, i)\<close> for \<open>i = 1 .. N / 2 - 1\<close>. For a negative
  \<open>N\<close> the range is empty under C++'s truncating division as under HOL's flooring one.\<close>

definition magnitudes :: "complex list \<Rightarrow> int \<Rightarrow> (real \<times> int) list" where
  "magnitudes fftResult N = map (\<lambda>i. (cmod (fftResult ! nat i), i)) [1 .. N div 2 - 1]"

text \<open>\<open>std::greater<>\<close> on \<open>std::pair<double, int>\<close>: \<open>a > b\<close> is the lexicographic
  \<open>b < a\<close>.\<close>

definition pair_greater :: "real \<times> int \<Rightarrow> real \<times> int \<Rightarrow> bool" where
  "pair_greater a b \<longleftrightarrow> fst b < fst a \<or> (\<not> fst a < fst b \<and> snd b < snd a)"

text \<open>\<open>std::sort\<close> with that comparator. The pairs carry pairwise different bin indices
  and the comparator is a strict total order on them, so the sorted sequence is unique;
  it is computed here by insertion.\<close>

fun insert_desc :: "real \<times> int \<Rightarrow> (real \<times> int) list \<Rightarrow> (real \<times> int) list" where
  "insert_desc x [] = [x]"
| "insert_desc x (y # ys) = (if pair_greater x y then x # y # ys else y # insert_desc x ys)"

definition sort_desc :: "(real \<times> int) list \<Rightarrow> (real \<times> int) list" where
  "sort_desc xs = foldr insert_desc xs []"

text \<open>The bins of the first 8 entries after sorting (the loop
  \<open>for (i = 0; i < 8 && i < magnitudes.size(); ++i)\<close>).\<close>

definition topBins :: "complex list \<Rightarrow> int \<Rightarrow> int list" where
  "topBins fftResult N = map snd (take 8 (sort_desc (magnitudes fftResult N)))"

text \<open>\<open>frequency = (peakIndex * sampleRate) / N\<close>. The bins \<open>1 .. N / 2 - 1\<close> are read
  from \<open>fftResult\<close>; when the vector is shorter than that the read is out of bounds.\<close>

definition getTop8Frequencies :: "complex list \<Rightarrow> int \<Rightarrow> real \<Rightarrow> error + real list" where
  "getTop8Frequencies fftResult N sampleRate =
     (if 1 < N div 2 \<and> int (length fftResult) < N div 2 then Inl OutOfBounds
      else Inr (map (\<lambda>peakIndex. (of_int peakIndex * sampleRate) / of_int N)
                    (topBins fftResult N)))"

section \<open>Chunked session loop (freq\_analyzer.cpp, main)\<close>

definition SAMPLE_RATE :: nat where "SAMPLE_RATE = 44100"
definition CHUNK_SIZE :: nat where "CHUNK_SIZE = SAMPLE_RATE"
definition MIN_SAMPLES :: nat where "MIN_SAMPLES = 44000"

text \<open>The state the loop carries from one cycle to the next: the sample buffer of
  \<open>CHUNK_SIZE * numChannels\<close> doubles, which is never cleared between reads, and the
  message. (\<open>fftInput\<close> is rewritten in full before each use.)\<close>

record session =
  buffer :: "real list"
  asciiMessage :: "8 word list"

definition session_init :: "nat \<Rightarrow> session" where
  "session_init numChannels =
     \<lparr>buffer = replicate (CHUNK_SIZE * numChannels) 0, asciiMessage = []\<rparr>"

text \<open>\<open>sf_readf_double(file, buffer.data(), CHUNK_SIZE)\<close> of libsndfile: the file is the
  list of its remaining interleaved samples; the call copies up to \<open>CHUNK_SIZE\<close> whole
  frames to the front of the buffer and returns the number of frames copied.\<close>

definition sf_readf_double :: "nat \<Rightarrow> real list \<Rightarrow> real list \<Rightarrow> nat \<times> real list \<times> real list" where
  "sf_readf_double numChannels file buf =
     (let readSamples = min CHUNK_SIZE (length file div numChannels);
          n = readSamples * numChannels
      in (readSamples, take n file @ drop n buf, drop n file))"

text \<open>\<open>std::fill(buffer.begin() + readSamples, buffer.end(), 0)\<close>: the offset is the
  number of frames, whatever the number of channels.\<close>

definition zero_fill :: "nat \<Rightarrow> real list \<Rightarrow> real list" where
  "zero_fill readSamples buf = take readSamples buf @ replicate (length buf - readSamples) 0"

text \<open>The body of the down-mix loop for frame \<open>i\<close>, on the buffer itself:
  \<open>buffer[i] = 0\<close>, then \<open>buffer[i] += buffer[i * numChannels + ch]\<close> for each channel, then
  \<open>buffer[i] /= numChannels\<close>. Every read sees the writes made before it.\<close>

definition downmix_frame :: "nat \<Rightarrow> real list \<Rightarrow> nat \<Rightarrow> real list" where
  "downmix_frame numChannels buf i =
     (let b0 = buf[i := 0];
          b1 = foldl (\<lambda>b ch. b[i := b ! i + b ! (i * numChannels + ch)]) b0 [0..<numChannels]
      in b1[i := b1 ! i / real numChannels])"

definition downmix :: "nat \<Rightarrow> nat \<Rightarrow> real list \<Rightarrow> real list" where
  "downmix numChannels readSamples buf =
     (if numChannels > 1 then foldl (downmix_frame numChannels) buf [0..<readSamples] else buf)"

text \<open>Lines 183 to 212 of a cycle that is not skipped: zero fill, down-mix, conversion to
  complex, transform, peak extraction, classification. The result is the buffer as the
  cycle leaves it and the decoded byte value.\<close>

definition process_window :: "nat \<Rightarrow> int \<Rightarrow> nat \<Rightarrow> real list \<Rightarrow> error + (real list \<times> int)" where
  "process_window numChannels sampleRate readSamples buf =
     (let b1 = zero_fill readSamples buf;
          b2 = downmix numChannels readSamples b1;
          fftInput = map (\<lambda>i. Complex (b2 ! i) 0) [0..<CHUNK_SIZE];
          spectrum = fft fftInput
      in case getTop8Frequencies spectrum (int CHUNK_SIZE) (of_int sampleRate) of
           Inl e \<Rightarrow> Inl e
         | Inr detectedFrequencies \<Rightarrow> Inr (b2, frequenciesToByte detectedFrequencies))"

text \<open>One cycle of the \<open>while\<close> loop after a read of \<open>readSamples > 0\<close> frames into the
  buffer: \<open>continue\<close> below \<open>MIN_SAMPLES\<close>, else decode and
  \<open>asciiMessage.push_back(static_cast<char>(byteValue))\<close>.\<close>

definition cycle :: "nat \<Rightarrow> int \<Rightarrow> session \<Rightarrow> nat \<Rightarrow> real list \<Rightarrow> error + session" where
  "cycle numChannels sampleRate st readSamples buf =
     (if readSamples < MIN_SAMPLES then Inr (st\<lparr>buffer := buf\<rparr>)
      else case process_window numChannels sampleRate readSamples buf of
             Inl e \<Rightarrow> Inl e
           | Inr (b2, byteValue) \<Rightarrow>
               Inr (st\<lparr>buffer := b2, asciiMessage := asciiMessage st @ [word_of_int byteValue]\<rparr>))"

function session_loop :: "nat \<Rightarrow> int \<Rightarrow> session \<Rightarrow> real list \<Rightarrow> error + session" where
  "session_loop numChannels sampleRate st file =
     (case sf_readf_double numChannels file (buffer st) of
        (readSamples, buf, rest) \<Rightarrow>
          if readSamples > 0
          then (case cycle numChannels sampleRate st readSamples buf of
                  Inl e \<Rightarrow> Inl e
                | Inr st' \<Rightarrow> session_loop numChannels sampleRate st' rest)
          else Inr st)"
  by pat_completeness auto
termination
proof (relation "measure (\<lambda>(numChannels, sampleRate, st, file). length file)", goal_cases)
  case 1
  show ?case by simp
next
  case (2 numChannels sampleRate st wav readSamples y buf rest st')
  then have rs: "readSamples = min CHUNK_SIZE (length wav div numChannels)"
    and rest: "rest = drop (readSamples * numChannels) wav"
    by (auto simp: sf_readf_double_def Let_def)
  from 2 have pos: "0 < readSamples" by simp
  with rs have "0 < length wav div numChannels" by simp
  then have "0 < numChannels" "numChannels \<le> length wav"
    by (auto simp: div_greater_zero_iff)
  with pos have "0 < readSamples * numChannels" "0 < length wav" by auto
  with rest have "length rest < length wav" by simp
  then show ?case by simp
qed

declare session_loop.simps [simp del]

text \<open>The number of windows of a file of \<open>frames\<close> frames that reach the decoder: the
  full ones, and the last partial one when it has at least \<open>MIN_SAMPLES\<close> frames.\<close>

definition decoded_windows :: "nat \<Rightarrow> nat" where
  "decoded_windows frames =
     frames div CHUNK_SIZE + (if MIN_SAMPLES \<le> frames mod CHUNK_SIZE then 1 else 0)"

section \<open>Waveform synthesizer (sine\_generator.cpp)\<close>

subsection \<open>Message conversion\<close>

text \<open>\<open>binary_to_bits\<close> of the single-tone generator. The second component lists the
  characters for which the warning line was written to \<open>std::cerr\<close>, in order.\<close>

definition bits_step :: "bool list \<times> string \<Rightarrow> char \<Rightarrow> bool list \<times> string" where
  "bits_step acc c =
     (if c = CHR ''0'' then (fst acc @ [False], snd acc)
      else if c = CHR ''1'' then (fst acc @ [True], snd acc)
      else (fst acc, snd acc @ [c]))"

definition binary_to_bits :: "string \<Rightarrow> bool list \<times> string" where
  "binary_to_bits binary = foldl bits_step ([], []) binary"

text \<open>\<open>std::stoi(str, nullptr, 2)\<close>: leading white space is skipped, one sign is
  accepted, then the longest run of binary digits is converted. No digit at all throws
  \<open>std::invalid_argument\<close>, a value outside \<open>int\<close> throws \<open>std::out_of_range\<close>; whatever
  follows the digits is dropped without notice.\<close>

definition is_space :: "char \<Rightarrow> bool" where
  "is_space c \<longleftrightarrow> c \<in> set [CHR '' '', CHR 0x09, CHR 0x0A, CHR 0x0B, CHR 0x0C, CHR 0x0D]"

definition is_binary_digit :: "char \<Rightarrow> bool" where
  "is_binary_digit c \<longleftrightarrow> c = CHR ''0'' \<or> c = CHR ''1''"

definition stoi :: "string \<Rightarrow> error + int" where
  "stoi str =
     (let s1 = dropWhile is_space str;
          neg = (s1 \<noteq> [] \<and> hd s1 = CHR ''-'');
          s2 = (if s1 \<noteq> [] \<and> (hd s1 = CHR ''-'' \<or> hd s1 = CHR ''+'') then tl s1 else s1);
          digits = takeWhile is_binary_digit s2;
          v = foldl (\<lambda>a c. 2 * a + (if c = CHR ''1'' then 1 else 0)) (0::int) digits;
          r = (if neg then - v else v)
      in if digits = [] then Inl InvalidArgument
         else if r < - (2 ^ 31) \<or> 2 ^ 31 - 1 < r then Inl OutOfRange
         else Inr r)"

text \<open>\<open>binary_to_bytes\<close> of the multi-tone generator: one \<open>stoi\<close> per chunk of 8
  characters (\<open>binary.substr(i, 8)\<close>), cast to \<open>uint8_t\<close>. An exception leaves the function
  at the first chunk that throws.\<close>

function binary_to_bytes :: "string \<Rightarrow> error + 8 word list" where
  "binary_to_bytes binary =
     (if binary = [] then Inr []
      else case stoi (take 8 binary) of
             Inl e \<Rightarrow> Inl e
           | Inr byte_value \<Rightarrow>
               (case binary_to_bytes (drop 8 binary) of
                  Inl e \<Rightarrow> Inl e
                | Inr bytes \<Rightarrow> Inr (word_of_int byte_value # bytes)))"
  by pat_completeness auto
termination
  by (relation "measure length") auto

declare binary_to_bytes.simps [simp del]

subsection \<open>Sample count and samples\<close>

text \<open>Conversion of a \<open>double\<close> to an integer type truncates toward zero; when the
  truncated value does not fit the type the behaviour is undefined.\<close>

definition c_trunc :: "real \<Rightarrow> int" where
  "c_trunc x = (if 0 \<le> x then \<lfloor>x\<rfloor> else \<lceil>x\<rceil>)"

definition double_to_uint32 :: "real \<Rightarrow> error + 32 word" where
  "double_to_uint32 x = (if - 1 < x \<and> x < 2 ^ 32 then Inr (word_of_int (c_trunc x)) else Inl CastOverflow)"

definition double_to_int :: "real \<Rightarrow> error + int" where
  "double_to_int x = (if - (2 ^ 31) - 1 < x \<and> x < 2 ^ 31 then Inr (c_trunc x) else Inl CastOverflow)"

definition double_to_int16 :: "real \<Rightarrow> error + 16 word" where
  "double_to_int16 x = (if - 32769 < x \<and> x < 32768 then Inr (word_of_int (c_trunc x)) else Inl CastOverflow)"

text \<open>\<open>bit_duration = 1.0 / bps\<close>, \<open>total_duration = bit_duration * num_bytes\<close>,
  \<open>num_samples = static_cast<uint32_t>(total_duration * sample_rate)\<close>.\<close>

definition num_samples :: "nat \<Rightarrow> real \<Rightarrow> real \<Rightarrow> error + 32 word" where
  "num_samples num_bytes bps sample_rate_khz =
     (if bps = 0 then Inl DivisionByZero
      else let sample_rate = dmul sample_rate_khz 1000;
               bit_duration = ddiv 1 bps;
               total_duration = dmul bit_duration (real num_bytes)
           in double_to_uint32 (dmul total_duration sample_rate))"

definition freq_table :: "(real \<times> real) list" where
  "freq_table =
     [(300, 500), (700, 900), (1100, 1300), (1500, 1700),
      (1900, 2100), (2300, 2500), (2700, 2900), (3100, 3300)]"

text \<open>\<open>freq_table[bit][bit_value]\<close> with
  \<open>bit_value = (current_byte >> (7 - bit)) & 1\<close> (the latest generator).\<close>

definition bit_value :: "8 word \<Rightarrow> nat \<Rightarrow> bool" where
  "bit_value current_byte b \<longleftrightarrow> (drop_bit (7 - b) current_byte AND 1) \<noteq> 0"

definition tone :: "8 word \<Rightarrow> nat \<Rightarrow> real" where
  "tone current_byte b =
     (if bit_value current_byte b then snd (freq_table ! b) else fst (freq_table ! b))"

text \<open>The body of the sample loop for index \<open>i\<close>.\<close>

definition sample_value :: "8 word list \<Rightarrow> real \<Rightarrow> real \<Rightarrow> real \<Rightarrow> nat \<Rightarrow> error + 16 word" where
  "sample_value bytes bps amplitude sample_rate i =
     (if sample_rate = 0 then Inl DivisionByZero
      else let t = ddiv (real i) sample_rate;
               bit_duration = ddiv 1 bps
           in case double_to_int (ddiv t bit_duration) of
                Inl e \<Rightarrow> Inl e
              | Inr byte_index0 \<Rightarrow>
                  (let num_bytes = int (length bytes);
                       byte_index = (if byte_index0 \<ge> num_bytes then num_bytes - 1 else byte_index0)
                   in if byte_index < 0 then Inl OutOfBounds
                      else let current_byte = bytes ! nat byte_index;
                               sample = foldl (\<lambda>s b. dadd s (dsin (dmul (dmul (dmul 2 M_PI)
                                                 (tone current_byte b)) t))) 0 [0..<8]
                           in double_to_int16 (dmul (dmul (ddiv sample 8) amplitude) 32767)))"

fun collect :: "(error + 'a) list \<Rightarrow> error + 'a list" where
  "collect [] = Inr []"
| "collect (Inl e # rs) = Inl e"
| "collect (Inr x # rs) = (case collect rs of Inl e \<Rightarrow> Inl e | Inr xs \<Rightarrow> Inr (x # xs))"

text \<open>\<open>sine_gen\<close> from the byte vector on, up to the sample vector; the WAV header and
  the file output are left out.\<close>

definition synthesize :: "8 word list \<Rightarrow> real \<Rightarrow> real \<Rightarrow> real \<Rightarrow> error + 16 word list" where
  "synthesize bytes bps level_dbfs sample_rate_khz =
     (let sample_rate = dmul sample_rate_khz 1000;
          amplitude = dpow 10 (ddiv level_dbfs 20)
      in case num_samples (length bytes) bps sample_rate_khz of
           Inl e \<Rightarrow> Inl e
         | Inr n \<Rightarrow> collect (map (sample_value bytes bps amplitude sample_rate) [0..<unat n]))"

definition sine_gen :: "string \<Rightarrow> real \<Rightarrow> real \<Rightarrow> real \<Rightarrow> error + 16 word list" where
  "sine_gen msg bps level_dbfs sample_rate_khz =
     (case binary_to_bytes msg of
        Inl e \<Rightarrow> Inl e
      | Inr bytes \<Rightarrow> synthesize bytes bps level_dbfs sample_rate_khz)"

text \<open>The tone of a table position that the synthesizer does not emit for a byte.\<close>

definition other_tone :: "8 word \<Rightarrow> nat \<Rightarrow> real" where
  "other_tone current_byte b =
     (if bit_value current_byte b then fst (freq_table ! b) else snd (freq_table ! b))"

text \<open>The value of sample \<open>n\<close> of a one-byte message before the conversion to
  \<open>int16_t\<close>: the eight tones averaged and scaled.\<close>

definition tone_mix :: "8 word \<Rightarrow> real \<Rightarrow> real \<Rightarrow> nat \<Rightarrow> real" where
  "tone_mix b amplitude sample_rate n =
     (\<Sum>i<8. sin (2 * pi * tone b i * (real n / sample_rate))) / 8 * amplitude * 32767"

section \<open>Round trip\<close>

text \<open>The decoder's steps on one window of mono samples (lines 196 to 212 of
  freq\_analyzer.cpp), with the length of the window in the place of \<open>CHUNK_SIZE\<close>.\<close>

definition decode_window :: "real \<Rightarrow> real list \<Rightarrow> error + int" where
  "decode_window sampleRate w =
     (case getTop8Frequencies (fft (map (\<lambda>x. Complex x 0) w)) (int (length w)) sampleRate of
        Inl e \<Rightarrow> Inl e
      | Inr detectedFrequencies \<Rightarrow> Inr (frequenciesToByte detectedFrequencies))"

text \<open>The first \<open>N\<close> PCM samples as libsndfile hands them out (scaled by \<open>1 / 32768\<close>),
  zero padded when there are fewer.\<close>

definition window :: "nat \<Rightarrow> 16 word list \<Rightarrow> real list" where
  "window N samples =
     map (\<lambda>i. if i < length samples then real_of_int (sint (samples ! i)) / 32768 else 0) [0..<N]"

definition round_trip :: "nat \<Rightarrow> 8 word \<Rightarrow> real \<Rightarrow> real \<Rightarrow> real \<Rightarrow> error + int" where
  "round_trip N b bps level_dbfs sample_rate_khz =
     (case synthesize [b] bps level_dbfs sample_rate_khz of
        Inl e \<Rightarrow> Inl e
      | Inr samples \<Rightarrow> decode_window (sample_rate_khz * 1000) (window N samples))"

text \<open>The discrete Fourier transform, as the sum it is defined by.\<close>

definition dft :: "complex list \<Rightarrow> nat \<Rightarrow> complex" where
  "dft xs k = (\<Sum>n<length xs. xs ! n * cis (- 2 * pi * real k * real n / real (length xs)))"

section \<open>Properties of the binary64 arithmetic\<close>

lemma rne_eq: "\<bar>y - of_int m\<bar> < 1 / 2 \<Longrightarrow> rne y = m"
proof -
  assume a: "\<bar>y - of_int m\<bar> < 1 / 2"
  show ?thesis
  proof (cases "of_int m \<le> y")
    case True
    then have "\<lfloor>y\<rfloor> = m" using a by (intro floor_unique) auto
    then show ?thesis using a True by (simp add: rne_def Let_def)
  next
    case False
    then have f: "\<lfloor>y\<rfloor> = m - 1" using a by (intro floor_unique) auto
    have "1 / 2 < y - of_int (m - 1)" using a False by auto
    then show ?thesis using f by (simp add: rne_def Let_def)
  qed
qed

lemma rne_of_int [simp]: "rne (of_int m) = m"
  by (rule rne_eq) simp

lemma rne_err: "\<bar>of_int (rne y) - y\<bar> \<le> 1 / 2"
  unfolding rne_def Let_def by (auto simp: abs_if) linarith+

lemma rne_minus: "rne (- y) = - rne y"
proof (cases "y = of_int \<lfloor>y\<rfloor>")
  case True
  then obtain m where "y = of_int m" by metis
  then show ?thesis by (simp flip: of_int_minus)
next
  case False
  then have lt: "of_int \<lfloor>y\<rfloor> < y" using of_int_floor_le [of y] by linarith
  have c: "\<lfloor>- y\<rfloor> = - \<lfloor>y\<rfloor> - 1" using lt by (intro floor_unique) (auto, linarith)
  show ?thesis
    unfolding rne_def Let_def c using lt by (auto simp: ) 
qed

lemma fl_0 [simp]: "fl 0 = 0" by (simp add: fl_def)

lemma fl_binade:
  assumes "2 powr of_int e \<le> \<bar>x\<bar>" "\<bar>x\<bar> < 2 powr of_int (e + 1)"
  shows "fl x = of_int (rne (x / 2 powr of_int (e - 52))) * 2 powr of_int (e - 52)"
proof -
  have "0 < (2::real) powr of_int e" by simp
  then have x: "0 < \<bar>x\<bar>" using assms(1) by linarith
  then have "\<lfloor>log 2 \<bar>x\<bar>\<rfloor> = e"
    using assms by (subst floor_log_eq_powr_iff) auto
  then show ?thesis using x by (simp add: fl_def)
qed

lemma fl_err: "\<bar>fl x - x\<bar> \<le> \<bar>x\<bar> / 2 ^ 53"
proof (cases "x = 0")
  case True then show ?thesis by simp
next
  case False
  define e where "e = \<lfloor>log 2 \<bar>x\<bar>\<rfloor>"
  have b: "2 powr of_int e \<le> \<bar>x\<bar>" "\<bar>x\<bar> < 2 powr of_int (e + 1)"
    using False floor_log_eq_powr_iff [of "\<bar>x\<bar>" 2 e] by (auto simp: e_def)
  define u where "u = (2::real) powr of_int (e - 52)"
  have u: "0 < u" by (simp add: u_def)
  have f: "fl x = of_int (rne (x / u)) * u" using fl_binade [OF b] by (simp add: u_def)
  have "fl x - x = (of_int (rne (x / u)) - x / u) * u"
    using u by (simp add: f field_simps)
  then have "\<bar>fl x - x\<bar> = \<bar>of_int (rne (x / u)) - x / u\<bar> * u"
    using u by (simp add: abs_mult)
  also have "\<dots> \<le> 1 / 2 * u" using rne_err [of "x / u"] u by (intro mult_right_mono) auto
  also have "1 / 2 * u = 2 powr of_int e / 2 ^ 53"
    by (simp add: u_def powr_diff)
  also have "\<dots> \<le> \<bar>x\<bar> / 2 ^ 53" using b(1) by (simp add: divide_right_mono)
  finally show ?thesis .
qed

lemma fl_minus: "fl (- x) = - fl x"
  by (simp add: fl_def rne_minus Let_def)

lemma fl_eval_ge:
  assumes "2 ^ n \<le> \<bar>x\<bar>" "\<bar>x\<bar> < 2 ^ (n + 1)" "n \<le> 52"
  shows "fl x = of_int (rne (x * 2 ^ (52 - n))) / 2 ^ (52 - n)"
proof -
  have p: "(2::real) powr of_int (int n) = 2 ^ n" "(2::real) powr of_int (int n + 1) = 2 ^ (n + 1)"
    by (simp_all add: powr_realpow powr_add)
  have q: "(2::real) powr of_int (int n - 52) = 1 / 2 ^ (52 - n)"
    using assms(3) by (simp add: powr_diff powr_realpow power_diff)
  show ?thesis
    using fl_binade [of "int n" x] assms(1,2) unfolding p q by simp
qed

lemma fl_eval_lt:
  assumes "1 / 2 ^ n \<le> \<bar>x\<bar>" "\<bar>x\<bar> < 2 / 2 ^ n"
  shows "fl x = of_int (rne (x * 2 ^ (52 + n))) / 2 ^ (52 + n)"
proof -
  have "(2::real) powr (1 - real n) = 2 powr 1 / 2 powr real n" by (rule powr_diff)
  then have p: "(2::real) powr of_int (- int n) = 1 / 2 ^ n" "(2::real) powr of_int (- int n + 1) = 2 / 2 ^ n"
    by (simp_all add: powr_realpow powr_minus field_simps)
  have q: "(2::real) powr of_int (- int n - 52) = 1 / 2 ^ (52 + n)"
    by (simp add: powr_diff powr_realpow powr_minus power_add field_simps)
  show ?thesis
    using fl_binade [of "- int n" x] assms(1,2) unfolding p q by simp
qed

lemma rne_numeral [simp]: "rne (numeral n) = numeral n"
  using rne_of_int [of "numeral n"] by simp

lemma rne_0 [simp]: "rne 0 = 0"
  using rne_of_int [of 0] by simp

lemma rne_1 [simp]: "rne 1 = 1"
  using rne_of_int [of 1] by simp

lemma fl_nonneg: "0 \<le> x \<Longrightarrow> 0 \<le> fl x"
  using fl_err [of x] by (simp add: abs_if field_simps split: if_splits)

lemma fl_1 [simp]: "fl 1 = 1"
  by (subst fl_eval_ge [of 0]) simp_all

lemma fl_neg_1 [simp]: "fl (- 1) = - 1"
  by (simp add: fl_minus)




lemma fl_of_int:
  assumes "\<bar>k\<bar> < 2 ^ 53"
  shows "fl (of_int k) = of_int k"
proof (cases "k = 0")
  case True then show ?thesis by simp
next
  case False
  define e where "e = \<lfloor>log 2 \<bar>of_int k :: real\<bar>\<rfloor>"
  from False have "1 \<le> \<bar>k\<bar>" by linarith
  then have "(1::real) \<le> of_int \<bar>k\<bar>" by (simp only: of_int_1_le_iff)
  then have k1: "1 \<le> \<bar>of_int k :: real\<bar>" by (simp only: of_int_abs)
  have b: "2 powr of_int e \<le> \<bar>of_int k :: real\<bar>" "\<bar>of_int k :: real\<bar> < 2 powr of_int (e + 1)"
    using k1 floor_log_eq_powr_iff [of "\<bar>of_int k :: real\<bar>" 2 e] by (auto simp: e_def)
  from assms have "(of_int \<bar>k\<bar> :: real) < of_int (2 ^ 53)" by (simp only: of_int_less_iff)
  then have "\<bar>of_int k :: real\<bar> < 2 ^ 53" by (simp add: of_int_abs)
  then have lt: "(2::real) powr of_int e < 2 ^ 53" using b(1) by simp
  have e53: "e < 53"
  proof (rule ccontr)
    assume "\<not> e < 53"
    then have "(53::real) \<le> of_int e" by simp
    then have "(2::real) powr 53 \<le> 2 powr of_int e" by (intro powr_mono) auto
    with lt show False by simp
  qed
  have "0 \<le> e"
  proof (rule ccontr)
    assume "\<not> 0 \<le> e"
    then have "real_of_int (e + 1) \<le> 0" by simp
    then have "(2::real) powr of_int (e + 1) \<le> 2 powr 0" by (intro powr_mono) auto
    with k1 b(2) show False by simp
  qed
  then obtain n :: nat where n1: "e = int n" by (metis nonneg_int_cases)
  with e53 have n2: "n \<le> 52" by simp
  note n = n1 n2
  have p: "(2::real) powr of_int (int n) = 2 ^ n" "(2::real) powr of_int (int n + 1) = 2 ^ (n + 1)"
    by (simp_all add: powr_realpow powr_add)
  have "fl (of_int k) = of_int (rne (of_int k * 2 ^ (52 - n))) / 2 ^ (52 - n)"
    using b n(2) unfolding n(1) p by (rule fl_eval_ge)
  also have "(of_int k :: real) * 2 ^ (52 - n) = of_int (k * 2 ^ (52 - n))" by simp
  also have "rne \<dots> = k * 2 ^ (52 - n)" by (rule rne_of_int)
  finally show ?thesis by simp
qed

lemma fl_numeral [simp]: "(numeral n :: int) < 2 ^ 53 \<Longrightarrow> fl (numeral n) = numeral n"
  using fl_of_int [of "numeral n"] by simp

lemma fl_neg_numeral [simp]: "(numeral n :: int) < 2 ^ 53 \<Longrightarrow> fl (- numeral n) = - numeral n"
  using fl_of_int [of "- numeral n"] by simp

lemma fl_of_nat: "n < 2 ^ 53 \<Longrightarrow> fl (real n) = real n"
  using fl_of_int [of "int n"] by simp


subsection \<open>Bounds on \<open>\<pi>\<close>\<close>



section \<open>Properties of the bit classifier\<close>

subsection \<open>Byte assembly\<close>

lemma foldl_assemble_bit:
  "bit (foldl (assemble_step bits) v [0..<n]) k \<longleftrightarrow>
     bit v k \<or> (\<exists>i<n. bits ! i \<noteq> 0 \<and> k = 7 - i)"
proof (induction n)
  case 0 then show ?case by simp
next
  case (Suc n)
  have "bit (assemble_step bits w n) k \<longleftrightarrow> bit w k \<or> (bits ! n \<noteq> 0 \<and> k = 7 - n)" for w
    by (simp add: assemble_step_def bit_simps)
  with Suc show ?case
    by (auto simp: less_Suc_eq)
qed

lemma assemble_byte_bit: "bit (assemble_byte bits) k \<longleftrightarrow> k < 8 \<and> bits ! (7 - k) \<noteq> 0"
proof -
  have "bit (assemble_byte bits) k \<longleftrightarrow> (\<exists>i<8. bits ! i \<noteq> 0 \<and> k = 7 - i)"
    unfolding assemble_byte_def by (simp add: foldl_assemble_bit)
  also have "\<dots> \<longleftrightarrow> k < 8 \<and> bits ! (7 - k) \<noteq> 0"
  proof
    assume "\<exists>i<8. bits ! i \<noteq> 0 \<and> k = 7 - i"
    then obtain i where "i < 8" "bits ! i \<noteq> 0" "k = 7 - i" by blast
    then show "k < 8 \<and> bits ! (7 - k) \<noteq> 0" by auto
  next
    assume "k < 8 \<and> bits ! (7 - k) \<noteq> 0"
    then have "7 - k < 8 \<and> bits ! (7 - k) \<noteq> 0 \<and> k = 7 - (7 - k)" by auto
    then show "\<exists>i<8. bits ! i \<noteq> 0 \<and> k = 7 - i" by blast
  qed
  finally show ?thesis .
qed

lemma or_disjoint_pow:
  "v OR 2 ^ m = v + 2 ^ m" if "\<not> bit (v::int) m"
proof -
  have "v AND 2 ^ m = 0"
    by (rule bit_eqI) (use that in \<open>auto simp: bit_and_iff bit_exp_iff\<close>)
  then show ?thesis
    by (simp add: disjunctive_add_eq_or)
qed

lemma foldl_assemble_sum:
  "n \<le> 8 \<Longrightarrow> foldl (assemble_step bits) 0 [0..<n] =
     (\<Sum>i<n. (if bits ! i \<noteq> 0 then 2 ^ (7 - i) else 0))"
proof (induction n)
  case 0 then show ?case by simp
next
  case (Suc n)
  let ?v = "foldl (assemble_step bits) 0 [0..<n]"
  have "\<not> bit ?v (7 - n)"
    using Suc.prems by (auto simp: foldl_assemble_bit)
  then have "assemble_step bits ?v n = ?v + (if bits ! n \<noteq> 0 then 2 ^ (7 - n) else 0)"
    by (simp add: assemble_step_def or_disjoint_pow)
  with Suc show ?case by simp
qed

lemma classify_bits_nth:
  "i < 8 \<Longrightarrow> classify_bits fs ! i =
     (if bit1Detected (scan_bit (bitFrequencyPairs ! i) fs) then 1 else 0)"
  unfolding classify_bits_def by (subst nth_map) simp_all

lemma closestFreqs_nth:
  "i < 8 \<Longrightarrow> closestFreqs fs ! i = closestFreq (scan_bit (bitFrequencyPairs ! i) fs)"
  unfolding closestFreqs_def by (subst nth_map) simp_all

text \<open>
  Claim C2, as the code has it. The loop \<open>byteValue |= 1 << (7 - i)\<close> gives the bit
  resolved for table position \<open>i\<close> the weight \<open>2 ^ (7 - i)\<close>: bit \<open>k\<close> of the byte is the
  bit resolved for table position \<open>7 - k\<close>. Table position 0 (300/500 Hz) therefore lands
  in the most significant bit of the byte and table position 7 (3100/3300 Hz) in the
  least significant one.
\<close>

theorem byte_assembly_msb_first:
  "assemble_byte bits = (\<Sum>i<8. (if bits ! i \<noteq> 0 then 2 ^ (7 - i) else 0))
   \<and> (\<forall>k. bit (assemble_byte bits) k \<longleftrightarrow> k < 8 \<and> bits ! (7 - k) \<noteq> 0)
   \<and> (bit (frequenciesToByte fs) 7 \<longleftrightarrow> classify_bits fs ! 0 = 1)
   \<and> (bit (frequenciesToByte fs) 0 \<longleftrightarrow> classify_bits fs ! 7 = 1)"
proof -
  have 1: "assemble_byte bits = (\<Sum>i<8. (if bits ! i \<noteq> 0 then 2 ^ (7 - i) else 0))"
    unfolding assemble_byte_def by (rule foldl_assemble_sum) simp
  have 2: "\<forall>k. bit (assemble_byte bits) k \<longleftrightarrow> k < 8 \<and> bits ! (7 - k) \<noteq> 0"
    by (simp add: assemble_byte_bit)
  have 3: "classify_bits fs ! i \<noteq> 0 \<longleftrightarrow> classify_bits fs ! i = 1" if "i < 8" for i
    using that by (simp add: classify_bits_nth)
  have "bit (frequenciesToByte fs) 7 \<longleftrightarrow> classify_bits fs ! 0 = 1"
    using 3 [of 0] by (simp add: frequenciesToByte_def assemble_byte_bit)
  moreover have "bit (frequenciesToByte fs) 0 \<longleftrightarrow> classify_bits fs ! 7 = 1"
    using 3 [of 7] by (simp add: frequenciesToByte_def assemble_byte_bit)
  ultimately show ?thesis using 1 2 by blast
qed

text \<open>The bits \<open>0,1,0,0,0,0,0,1\<close> in table order assemble to \<open>0x41\<close>.\<close>

theorem byte_assembly_msb_first_witness:
  "assemble_byte [0, 1, 0, 0, 0, 0, 0, 1] = 65
   \<and> bit (assemble_byte [0, 1, 0, 0, 0, 0, 0, 1]) 6
   \<and> bit (assemble_byte [0, 1, 0, 0, 0, 0, 0, 1]) 0
   \<and> \<not> bit (assemble_byte [0, 1, 0, 0, 0, 0, 0, 1]) 7"
  using byte_assembly_msb_first [of "[0, 1, 0, 0, 0, 0, 0, 1]" "[]"]
  by (simp add: lessThan_nat_numeral lessThan_Suc)

text \<open>
  Claim C2 as the specification words it (table position 0 is the least significant bit
  of the byte) fails: with only table position 0 set, the byte is 128 and its bit 0 is
  clear; a single detected tone of 500 Hz decodes to 128, not to 1.
\<close>

theorem byte_assembly_lsb_counterexample:
  "assemble_byte [1, 0, 0, 0, 0, 0, 0, 0] = 128
   \<and> \<not> (bit (assemble_byte [1, 0, 0, 0, 0, 0, 0, 0]) 0 \<longleftrightarrow> [1, 0, 0, 0, 0, 0, 0, 0 :: int] ! 0 = 1)
   \<and> frequenciesToByte [500] = 128"
  by (simp add: frequenciesToByte_def classify_bits_def scan_bit_def scan_step_def scan_init_def
      bitFrequencyPairs_def assemble_byte_def assemble_step_def upt_rec)

subsection \<open>Tolerance\<close>

lemma pair_gap: "i < 8 \<Longrightarrow> snd (bitFrequencyPairs ! i) = fst (bitFrequencyPairs ! i) + 200"
proof -
  assume "i < 8"
  then have "i \<in> {0, 1, 2, 3, 4, 5, 6, 7}" by auto
  then show ?thesis
    by (auto simp: bitFrequencyPairs_def)
qed

lemma scan_step_out_of_tolerance:
  "50 \<le> \<bar>f - fst p\<bar> \<Longrightarrow> 50 \<le> \<bar>f - snd p\<bar> \<Longrightarrow> scan_step p s f = s"
  by (simp add: scan_step_def)

lemma scan_step_low:
  "\<bar>f - fst p\<bar> < 50 \<Longrightarrow> \<bar>f - fst p\<bar> < minDiff s \<Longrightarrow> 50 \<le> \<bar>f - snd p\<bar> \<Longrightarrow>
   scan_step p s f = s\<lparr>bit0Detected := True, bit1Detected := False,
                        minDiff := \<bar>f - fst p\<bar>, closestFreq := f\<rparr>"
  by (simp add: scan_step_def)

lemma scan_step_high:
  "\<bar>f - snd p\<bar> < 50 \<Longrightarrow> \<bar>f - snd p\<bar> < minDiff s \<Longrightarrow> 50 \<le> \<bar>f - fst p\<bar> \<Longrightarrow>
   scan_step p s f = s\<lparr>bit1Detected := True, bit0Detected := False,
                        minDiff := \<bar>f - snd p\<bar>, closestFreq := f\<rparr>"
  by (simp add: scan_step_def)

lemma foldl_scan_out_of_tolerance:
  "\<forall>f\<in>set fs. 50 \<le> \<bar>f - fst p\<bar> \<and> 50 \<le> \<bar>f - snd p\<bar> \<Longrightarrow> foldl (scan_step p) s fs = s"
  by (induction fs arbitrary: s) (simp_all add: scan_step_out_of_tolerance)

lemma scan_inv_init: "scan_inv scan_init"
  by (simp add: scan_inv_def scan_init_def)

lemma scan_inv_step: "scan_inv s \<Longrightarrow> scan_inv (scan_step p s f)"
  by (auto simp: scan_inv_def scan_step_def Let_def)

lemma scan_inv_foldl: "scan_inv s \<Longrightarrow> scan_inv (foldl (scan_step p) s fs)"
  by (induction fs arbitrary: s) (simp_all add: scan_inv_step)

lemma minDiff_step_le: "minDiff (scan_step p s f) \<le> minDiff s"
  by (auto simp: scan_step_def Let_def)

lemma minDiff_foldl_le: "minDiff (foldl (scan_step p) s fs) \<le> minDiff s"
proof (induction fs arbitrary: s)
  case Nil then show ?case by simp
next
  case (Cons f fs)
  have "minDiff (foldl (scan_step p) (scan_step p s f) fs) \<le> minDiff (scan_step p s f)"
    by (rule Cons.IH)
  also have "\<dots> \<le> minDiff s" by (rule minDiff_step_le)
  finally show ?case by simp
qed

lemma minDiff_step_lt50:
  "\<bar>f - fst p\<bar> < 50 \<or> \<bar>f - snd p\<bar> < 50 \<Longrightarrow> minDiff (scan_step p s f) < 50"
  by (auto simp: scan_step_def Let_def)

lemma minDiff_foldl_lt50:
  "f \<in> set fs \<Longrightarrow> \<bar>f - fst p\<bar> < 50 \<or> \<bar>f - snd p\<bar> < 50 \<Longrightarrow>
   minDiff (foldl (scan_step p) s fs) < 50"
proof (induction fs arbitrary: s)
  case Nil then show ?case by simp
next
  case (Cons g fs)
  show ?case
  proof (cases "f = g")
    case True
    have "minDiff (foldl (scan_step p) (scan_step p s g) fs) \<le> minDiff (scan_step p s g)"
      by (rule minDiff_foldl_le)
    also have "\<dots> < 50" using Cons.prems(2) True by (simp add: minDiff_step_lt50)
    finally show ?thesis by simp
  next
    case False
    with Cons.prems have "f \<in> set fs" by simp
    then show ?thesis using Cons.IH Cons.prems(2) by simp
  qed
qed

lemma scan_bit_detected:
  "f \<in> set fs \<Longrightarrow> \<bar>f - fst p\<bar> < 50 \<or> \<bar>f - snd p\<bar> < 50 \<Longrightarrow>
   bit0Detected (scan_bit p fs) \<or> bit1Detected (scan_bit p fs)"
  using scan_inv_foldl [OF scan_inv_init, of p fs] minDiff_foldl_lt50 [of f fs p scan_init]
  by (simp add: scan_bit_def scan_inv_def)

text \<open>
  Claim C3. For table position \<open>i\<close>: (1) a frequency exactly 50 Hz from either entry of
  the position leaves the scan state untouched, it is no match; (2, 3) a frequency
  49.9 Hz from the low (high) entry becomes the match of the position, with bit value 0
  (1), whenever nothing closer was matched before, in particular from the initial state;
  (4) a list holding a frequency 49.9 Hz from an entry always ends with the position
  detected; (5) when no frequency of the list is strictly within 50 Hz of either entry,
  the bit resolves to 0, no frequency is recorded, and the byte's bit for the position is
  clear.
\<close>

theorem tolerance_boundary:
  assumes "i < 8"
  shows "(\<bar>f - fst (bitFrequencyPairs ! i)\<bar> = 50 \<or> \<bar>f - snd (bitFrequencyPairs ! i)\<bar> = 50
            \<longrightarrow> scan_step (bitFrequencyPairs ! i) s f = s)
       \<and> (\<bar>f - fst (bitFrequencyPairs ! i)\<bar> = 49.9 \<and> 49.9 < minDiff s
            \<longrightarrow> scan_step (bitFrequencyPairs ! i) s f =
                 s\<lparr>bit0Detected := True, bit1Detected := False, minDiff := 49.9, closestFreq := f\<rparr>)
       \<and> (\<bar>f - snd (bitFrequencyPairs ! i)\<bar> = 49.9 \<and> 49.9 < minDiff s
            \<longrightarrow> scan_step (bitFrequencyPairs ! i) s f =
                 s\<lparr>bit1Detected := True, bit0Detected := False, minDiff := 49.9, closestFreq := f\<rparr>)
       \<and> (f \<in> set fs \<and> (\<bar>f - fst (bitFrequencyPairs ! i)\<bar> = 49.9 \<or> \<bar>f - snd (bitFrequencyPairs ! i)\<bar> = 49.9)
            \<longrightarrow> bit0Detected (scan_bit (bitFrequencyPairs ! i) fs)
               \<or> bit1Detected (scan_bit (bitFrequencyPairs ! i) fs))
       \<and> ((\<forall>g\<in>set fs. \<not> \<bar>g - fst (bitFrequencyPairs ! i)\<bar> < 50 \<and> \<not> \<bar>g - snd (bitFrequencyPairs ! i)\<bar> < 50)
            \<longrightarrow> classify_bits fs ! i = 0 \<and> closestFreqs fs ! i = 0
                \<and> \<not> bit (frequenciesToByte fs) (7 - i))"
proof -
  let ?p = "bitFrequencyPairs ! i"
  have gap: "snd ?p = fst ?p + 200" using assms by (rule pair_gap)
  have a: "scan_step ?p s f = s" if "\<bar>f - fst ?p\<bar> = 50 \<or> \<bar>f - snd ?p\<bar> = 50"
  proof -
    have "50 \<le> \<bar>f - fst ?p\<bar>" "50 \<le> \<bar>f - snd ?p\<bar>" using that gap by linarith+
    then show ?thesis by (rule scan_step_out_of_tolerance)
  qed
  have b: "scan_step ?p s f =
      s\<lparr>bit0Detected := True, bit1Detected := False, minDiff := 49.9, closestFreq := f\<rparr>"
    if "\<bar>f - fst ?p\<bar> = 49.9 \<and> 49.9 < minDiff s"
  proof -
    have "50 \<le> \<bar>f - snd ?p\<bar>" using that gap by linarith
    then show ?thesis using that scan_step_low [of f ?p s] by simp
  qed
  have c: "scan_step ?p s f =
      s\<lparr>bit1Detected := True, bit0Detected := False, minDiff := 49.9, closestFreq := f\<rparr>"
    if "\<bar>f - snd ?p\<bar> = 49.9 \<and> 49.9 < minDiff s"
  proof -
    have "50 \<le> \<bar>f - fst ?p\<bar>" using that gap by linarith
    then show ?thesis using that scan_step_high [of f ?p s] by simp
  qed
  have d: "bit0Detected (scan_bit ?p fs) \<or> bit1Detected (scan_bit ?p fs)"
    if "f \<in> set fs \<and> (\<bar>f - fst ?p\<bar> = 49.9 \<or> \<bar>f - snd ?p\<bar> = 49.9)"
  proof -
    have "\<bar>f - fst ?p\<bar> < 50 \<or> \<bar>f - snd ?p\<bar> < 50" using that by linarith
    then show ?thesis using that scan_bit_detected by blast
  qed
  have e: "classify_bits fs ! i = 0 \<and> closestFreqs fs ! i = 0 \<and> \<not> bit (frequenciesToByte fs) (7 - i)"
    if "\<forall>g\<in>set fs. \<not> \<bar>g - fst ?p\<bar> < 50 \<and> \<not> \<bar>g - snd ?p\<bar> < 50"
  proof -
    have "scan_bit ?p fs = scan_init"
      unfolding scan_bit_def by (rule foldl_scan_out_of_tolerance) (use that in auto)
    then have 1: "classify_bits fs ! i = 0" and 2: "closestFreqs fs ! i = 0"
      using assms by (simp_all add: classify_bits_nth closestFreqs_nth scan_init_def)
    have "7 - (7 - i) = i" using assms by simp
    then have "\<not> bit (frequenciesToByte fs) (7 - i)"
      using 1 by (simp add: frequenciesToByte_def assemble_byte_bit)
    with 1 2 show ?thesis by simp
  qed
  show ?thesis using a b c d e by blast
qed

text \<open>At table position 0 (300/500 Hz): 350 Hz is no match, 349.9 Hz matches as bit 0 and
  549.9 Hz as bit 1.\<close>

theorem tolerance_boundary_witness:
  "scan_step (bitFrequencyPairs ! 0) scan_init 350 = scan_init
   \<and> classify_bits [350] ! 0 = 0 \<and> closestFreqs [350] ! 0 = 0
   \<and> scan_step (bitFrequencyPairs ! 0) scan_init 349.9 =
       scan_init\<lparr>bit0Detected := True, bit1Detected := False, minDiff := 49.9, closestFreq := 349.9\<rparr>
   \<and> scan_step (bitFrequencyPairs ! 0) scan_init 549.9 =
       scan_init\<lparr>bit1Detected := True, bit0Detected := False, minDiff := 49.9, closestFreq := 549.9\<rparr>
   \<and> (bit0Detected (scan_bit (bitFrequencyPairs ! 0) [349.9])
        \<or> bit1Detected (scan_bit (bitFrequencyPairs ! 0) [349.9]))"
  using tolerance_boundary [of 0 350 scan_init "[350]"]
        tolerance_boundary [of 0 "349.9" scan_init "[349.9]"]
        tolerance_boundary [of 0 "549.9" scan_init "[549.9]"]
  by (simp add: bitFrequencyPairs_def scan_init_def)

section \<open>Properties of the transform engine\<close>

lemma length_evens [simp]: "length (evens data) = length data div 2"
  by (simp add: evens_def)

lemma length_odds [simp]: "length (odds data) = length data div 2"
  by (simp add: odds_def)

lemma length_combine: "length (combine data E O') = length data"
  by (simp add: combine_def Let_def)

lemma length_fft: "length (fft data) = length data"
  by (subst fft.simps) (simp add: length_combine)














lemma fft_rec_total: "fft_rec data = Some (fft data)"
proof (induction data rule: fft.induct)
  case (1 data)
  show ?case
  proof (cases "length data \<le> 1")
    case True
    then show ?thesis by (subst fft_rec.simps, subst fft.simps) simp
  next
    case False
    with 1 have "fft_rec (evens data) = Some (fft (evens data))"
      "fft_rec (odds data) = Some (fft (odds data))" by simp_all
    then show ?thesis using False by (subst fft_rec.simps, subst fft.simps) simp
  qed
qed




text \<open>
  Claim C10. The recursion of \<open>fft\<close> returns on every input, of any length: the
  recursion written without a termination argument (\<open>fft_rec\<close>) has a result for every
  array, the one of the terminating definition. Both recursive calls of an array of
  length \<open>N > 1\<close> are on arrays of length \<open>N div 2\<close>, which is strictly smaller than \<open>N\<close>.
\<close>

theorem fft_terminates:
  "(\<exists>out. fft_rec data = Some out)
   \<and> fft_rec data = Some (fft data)
   \<and> (1 < length data \<longrightarrow>
        length (evens data) = length data div 2
        \<and> length (odds data) = length data div 2
        \<and> length data div 2 < length data)"
proof -
  have "length data div 2 < length data" if "1 < length data"
    using that by linarith
  then show ?thesis
    by (simp add: fft_rec_total)
qed

text \<open>An array of length 3, not a power of two: the calls are on arrays of length 1.\<close>

theorem fft_terminates_witness:
  "(\<exists>out. fft_rec [1, 2, 3] = Some out)
   \<and> length (evens [1, 2, 3]) = 1 \<and> length (odds [1, 2, 3]) = 1"
  using fft_terminates [of "[1, 2, 3]"] by simp

section \<open>Properties of the peak extractor\<close>

lemma pair_greater_iff:
  "pair_greater a b \<longleftrightarrow> fst b < fst a \<or> (fst a = fst b \<and> snd b < snd a)"
  by (auto simp: pair_greater_def)

lemma pair_greater_trans: "pair_greater a b \<Longrightarrow> pair_greater b c \<Longrightarrow> pair_greater a c"
  by (auto simp: pair_greater_iff)

lemma pair_greater_total: "\<not> pair_greater a b \<Longrightarrow> a \<noteq> b \<Longrightarrow> pair_greater b a"
  by (auto simp: pair_greater_iff prod_eq_iff)

lemma set_insert_desc [simp]: "set (insert_desc x xs) = insert x (set xs)"
  by (induction xs) auto

lemma length_insert_desc [simp]: "length (insert_desc x xs) = Suc (length xs)"
  by (induction xs) auto

lemma distinct_insert_desc: "x \<notin> set xs \<Longrightarrow> distinct xs \<Longrightarrow> distinct (insert_desc x xs)"
  by (induction xs) auto

lemma sorted_insert_desc:
  "x \<notin> set xs \<Longrightarrow> sorted_wrt pair_greater xs \<Longrightarrow> sorted_wrt pair_greater (insert_desc x xs)"
proof (induction xs)
  case Nil then show ?case by simp
next
  case (Cons y ys)
  show ?case
  proof (cases "pair_greater x y")
    case True
    then have "\<forall>z\<in>set ys. pair_greater x z"
      using Cons.prems(2) by (auto intro: pair_greater_trans)
    with True Cons.prems(2) show ?thesis by simp
  next
    case False
    with Cons.prems(1) have "pair_greater y x" by (auto intro: pair_greater_total)
    with False Cons show ?thesis by auto
  qed
qed

lemma set_sort_desc [simp]: "set (sort_desc xs) = set xs"
  unfolding sort_desc_def by (induction xs) auto

lemma length_sort_desc [simp]: "length (sort_desc xs) = length xs"
  unfolding sort_desc_def by (induction xs) auto

lemma sorted_sort_desc: "distinct xs \<Longrightarrow> sorted_wrt pair_greater (sort_desc xs)"
proof (induction xs)
  case Nil then show ?case by (simp add: sort_desc_def)
next
  case (Cons x xs)
  then have "x \<notin> set (sort_desc xs)" "sorted_wrt pair_greater (sort_desc xs)" by simp_all
  then have "sorted_wrt pair_greater (insert_desc x (sort_desc xs))"
    by (rule sorted_insert_desc)
  then show ?case by (simp add: sort_desc_def)
qed

lemma pair_greater_irrefl: "\<not> pair_greater a a"
  by (simp add: pair_greater_iff)

lemma sorted_distinct: "sorted_wrt pair_greater xs \<Longrightarrow> distinct xs"
  by (induction xs) (auto simp: pair_greater_irrefl)

lemma length_magnitudes: "length (magnitudes X N) = nat (N div 2 - 1)"
  by (simp add: magnitudes_def)

lemma set_magnitudes:
  "set (magnitudes X N) = (\<lambda>i. (cmod (X ! nat i), i)) ` {1 .. N div 2 - 1}"
  by (simp add: magnitudes_def)

lemma distinct_magnitudes: "distinct (magnitudes X N)"
  unfolding magnitudes_def by (simp add: distinct_map inj_on_def)

lemma sorted_magnitudes_entry:
  "e \<in> set (sort_desc (magnitudes X N)) \<Longrightarrow>
   e = (cmod (X ! nat (snd e)), snd e) \<and> 1 \<le> snd e \<and> snd e \<le> N div 2 - 1"
  by (auto simp: set_magnitudes)

lemma map_entry_topBins:
  "map (\<lambda>i. (cmod (X ! nat i), i)) (topBins X N) = take 8 (sort_desc (magnitudes X N))"
proof -
  have "\<forall>e\<in>set (take 8 (sort_desc (magnitudes X N))). (cmod (X ! nat (snd e)), snd e) = e"
    using sorted_magnitudes_entry [of _ X N] by (metis in_set_takeD)
  then show ?thesis
    unfolding topBins_def by (simp add: map_idI comp_def)
qed

lemma length_topBins: "length (topBins X N) = nat (min 8 (N div 2 - 1))"
  by (simp add: topBins_def length_magnitudes)

lemma set_topBins: "set (topBins X N) \<subseteq> {1 .. N div 2 - 1}"
proof
  fix b assume "b \<in> set (topBins X N)"
  then obtain e where "e \<in> set (take 8 (sort_desc (magnitudes X N)))" "b = snd e"
    by (auto simp: topBins_def)
  then show "b \<in> {1 .. N div 2 - 1}"
    using sorted_magnitudes_entry [of e X N] by (auto dest: in_set_takeD)
qed

lemma sorted_topBins:
  "sorted_wrt pair_greater (map (\<lambda>i. (cmod (X ! nat i), i)) (topBins X N))"
  unfolding map_entry_topBins
  by (intro sorted_wrt_take sorted_sort_desc distinct_magnitudes)

lemma distinct_topBins: "distinct (topBins X N)"
  using sorted_distinct [OF sorted_topBins, of X N] by (simp add: distinct_map)

lemma topBins_dominate:
  assumes "b \<in> {1 .. N div 2 - 1}" "b \<notin> set (topBins X N)" "c \<in> set (topBins X N)"
  shows "pair_greater (cmod (X ! nat c), c) (cmod (X ! nat b), b)"
proof -
  let ?f = "\<lambda>i. (cmod (X ! nat i), i)"
  let ?S = "sort_desc (magnitudes X N)"
  have S: "sorted_wrt pair_greater (take 8 ?S @ drop 8 ?S)"
    by (simp add: sorted_sort_desc distinct_magnitudes)
  have "?f c \<in> set (map ?f (topBins X N))" using assms(3) by simp
  then have c: "?f c \<in> set (take 8 ?S)"
    by (simp only: map_entry_topBins)
  have "?f b \<in> set ?S" using assms(1) by (simp add: set_magnitudes)
  moreover have "?f b \<notin> set (take 8 ?S)"
  proof
    assume "?f b \<in> set (take 8 ?S)"
    then have "snd (?f b) \<in> set (topBins X N)"
      unfolding topBins_def by (simp del: snd_conv) 
    with assms(2) show False by simp
  qed
  ultimately have b: "?f b \<in> set (drop 8 ?S)"
    by (metis Un_iff append_take_drop_id set_append)
  from S c b show ?thesis
    unfolding sorted_wrt_append by blast
qed

text \<open>
  Claim C5, with \<open>double\<close> read as exact reals. When the spectrum holds the bins that are
  read, the extractor returns the frequencies \<open>bin * sampleRate / N\<close> of the bins
  \<open>topBins\<close>, which are \<open>min 8 (N div 2 - 1)\<close> (none when that is negative) pairwise
  different bins among \<open>1 .. N div 2 - 1\<close>, listed by descending magnitude with equal
  magnitudes listed by descending bin, and every bin of \<open>1 .. N div 2 - 1\<close> that is left out
  ranks below every bin that is returned.
\<close>

theorem top8_peaks:
  assumes "N div 2 \<le> int (length fftResult)"
  shows "getTop8Frequencies fftResult N sampleRate =
           Inr (map (\<lambda>b. (of_int b * sampleRate) / of_int N) (topBins fftResult N))
       \<and> length (topBins fftResult N) = nat (min 8 (N div 2 - 1))
       \<and> distinct (topBins fftResult N)
       \<and> set (topBins fftResult N) \<subseteq> {1 .. N div 2 - 1}
       \<and> (\<forall>i j. i < j \<and> j < length (topBins fftResult N) \<longrightarrow>
            cmod (fftResult ! nat (topBins fftResult N ! j)) < cmod (fftResult ! nat (topBins fftResult N ! i))
            \<or> (cmod (fftResult ! nat (topBins fftResult N ! i)) = cmod (fftResult ! nat (topBins fftResult N ! j))
                \<and> topBins fftResult N ! j < topBins fftResult N ! i))
       \<and> (\<forall>b\<in>{1 .. N div 2 - 1} - set (topBins fftResult N). \<forall>c\<in>set (topBins fftResult N).
            cmod (fftResult ! nat b) < cmod (fftResult ! nat c)
            \<or> (cmod (fftResult ! nat c) = cmod (fftResult ! nat b) \<and> b < c))"
proof -
  let ?B = "topBins fftResult N"
  let ?f = "\<lambda>i. (cmod (fftResult ! nat i), i)"
  have 1: "getTop8Frequencies fftResult N sampleRate =
           Inr (map (\<lambda>b. (of_int b * sampleRate) / of_int N) ?B)"
    using assms by (simp add: getTop8Frequencies_def)
  have 5: "cmod (fftResult ! nat (?B ! j)) < cmod (fftResult ! nat (?B ! i))
            \<or> (cmod (fftResult ! nat (?B ! i)) = cmod (fftResult ! nat (?B ! j)) \<and> ?B ! j < ?B ! i)"
    if "i < j \<and> j < length ?B" for i j
  proof -
    have "pair_greater (map ?f ?B ! i) (map ?f ?B ! j)"
      using sorted_topBins [of fftResult N] that
      by (simp only: sorted_wrt_iff_nth_less length_map)
    then show ?thesis
      using that by (simp add: pair_greater_iff)
  qed
  have 6: "cmod (fftResult ! nat b) < cmod (fftResult ! nat c)
            \<or> (cmod (fftResult ! nat c) = cmod (fftResult ! nat b) \<and> b < c)"
    if "b \<in> {1 .. N div 2 - 1} - set ?B" "c \<in> set ?B" for b c
    using topBins_dominate [of b N fftResult c] that by (simp add: pair_greater_iff)
  show ?thesis
    using 1 length_topBins [of fftResult N] distinct_topBins [of fftResult N]
      set_topBins [of fftResult N] 5 6
    by blast
qed

text \<open>A 10-bin spectrum with magnitudes 1, 3, 3, 2 in bins 1 to 4: the two bins of
  magnitude 3 come first, the higher bin before the lower.\<close>

theorem top8_peaks_witness:
  "getTop8Frequencies [0, 1, 3, 3, 2, 0, 0, 0, 0, 0] 10 100 =
     Inr (map (\<lambda>b. (of_int b * 100) / of_int 10) (topBins [0, 1, 3, 3, 2, 0, 0, 0, 0, 0] 10))
   \<and> length (topBins [0, 1, 3, 3, 2, 0, 0, 0, 0, 0] 10) = 4
   \<and> topBins [0, 1, 3, 3, 2, 0, 0, 0, 0, 0] 10 = [3, 2, 4, 1]"
proof -
  have b: "topBins [0, 1, 3, 3, 2, 0, 0, 0, 0, 0] 10 = [3, 2, 4, 1]"
    by (simp add: topBins_def magnitudes_def sort_desc_def pair_greater_def upto_rec1)
  have h: "(10::int) div 2 \<le> int (length [0, 1, 3, 3, 2, 0, 0, 0, 0, 0 :: complex])"
    by simp
  from top8_peaks [OF h, of 100] b show ?thesis by simp
qed

section \<open>Properties of the session loop\<close>

lemma length_zero_fill: "readSamples \<le> length buf \<Longrightarrow> length (zero_fill readSamples buf) = length buf"
  by (simp add: zero_fill_def)

lemma zero_fill_nth:
  "j < length buf \<Longrightarrow> readSamples \<le> length buf \<Longrightarrow>
   zero_fill readSamples buf ! j = (if j < readSamples then buf ! j else 0)"
  by (simp add: zero_fill_def nth_append)

lemma length_accumulate:
  "length (foldl (\<lambda>b ch. b[i := b ! i + b ! (i * nc + ch)]) b0 chs) = length b0"
  by (induction chs arbitrary: b0) simp_all

lemma accumulate_other:
  "j \<noteq> i \<Longrightarrow> foldl (\<lambda>b ch. b[i := b ! i + b ! (i * nc + ch)]) b0 chs ! j = b0 ! j"
  by (induction chs arbitrary: b0) simp_all

lemma length_downmix_frame [simp]: "length (downmix_frame nc buf i) = length buf"
  by (simp add: downmix_frame_def Let_def length_accumulate)

lemma downmix_frame_other: "j \<noteq> i \<Longrightarrow> downmix_frame nc buf i ! j = buf ! j"
  by (simp add: downmix_frame_def Let_def accumulate_other)

lemma downmix_frame_stereo:
  "i < length buf \<Longrightarrow>
   downmix_frame 2 buf i ! i =
     (if i = 0 then buf ! 1 / 2 else (buf ! (i * 2) + buf ! (i * 2 + 1)) / 2)"
  by (auto simp: downmix_frame_def Let_def upt_rec numeral_2_eq_2)

lemma length_frames [simp]: "length (foldl (downmix_frame nc) buf [0..<n]) = length buf"
  by (induction n) simp_all

lemma frames_untouched:
  "n \<le> j \<Longrightarrow> foldl (downmix_frame nc) buf [0..<n] ! j = buf ! j"
  by (induction n) (simp_all add: downmix_frame_other)

lemma frames_settled:
  "j < m \<Longrightarrow> m \<le> n \<Longrightarrow>
   foldl (downmix_frame nc) buf [0..<n] ! j = foldl (downmix_frame nc) buf [0..<m] ! j"
proof (induction n)
  case 0 then show ?case by simp
next
  case (Suc n)
  show ?case
  proof (cases "m = Suc n")
    case True then show ?thesis by simp
  next
    case False
    with Suc.prems have "m \<le> n" "j \<noteq> n" by simp_all
    with Suc show ?thesis by (simp add: downmix_frame_other)
  qed
qed

lemma length_downmix [simp]: "length (downmix nc rs buf) = length buf"
  by (simp add: downmix_def)

lemma downmix_stereo_nth:
  assumes "j < rs" "2 * rs \<le> length buf"
  shows "downmix 2 rs buf ! j =
     (if j = 0 then buf ! 1 / 2 else (buf ! (j * 2) + buf ! (j * 2 + 1)) / 2)"
proof -
  let ?F = "\<lambda>n. foldl (downmix_frame 2) buf [0..<n]"
  have "downmix 2 rs buf ! j = ?F rs ! j" by (simp add: downmix_def)
  also have "\<dots> = ?F (Suc j) ! j"
    using assms by (intro frames_settled) simp_all
  also have "\<dots> = downmix_frame 2 (?F j) j ! j" by simp
  also have "\<dots> = (if j = 0 then ?F j ! 1 / 2 else (?F j ! (j * 2) + ?F j ! (j * 2 + 1)) / 2)"
    using assms by (intro downmix_frame_stereo) simp
  also have "\<dots> = (if j = 0 then buf ! 1 / 2 else (buf ! (j * 2) + buf ! (j * 2 + 1)) / 2)"
    by (simp add: frames_untouched)
  finally show ?thesis .
qed

lemma process_window_ok:
  "\<exists>b2 v. process_window nc sr rs buf = Inr (b2, v)"
proof -
  let ?b2 = "downmix nc rs (zero_fill rs buf)"
  let ?X = "fft (map (\<lambda>i. Complex (?b2 ! i) 0) [0..<CHUNK_SIZE])"
  have "length ?X = CHUNK_SIZE" by (simp add: length_fft)
  then have "\<not> (1 < int CHUNK_SIZE div 2 \<and> int (length ?X) < int CHUNK_SIZE div 2)"
    by (simp add: CHUNK_SIZE_def SAMPLE_RATE_def)
  then obtain fs where "getTop8Frequencies ?X (int CHUNK_SIZE) (of_int sr) = Inr fs"
    unfolding getTop8Frequencies_def by simp
  then show ?thesis
    by (simp add: process_window_def Let_def)
qed

lemma cycle_skip:
  "rs < MIN_SAMPLES \<Longrightarrow> cycle nc sr st rs buf = Inr (st\<lparr>buffer := buf\<rparr>)"
  by (simp add: cycle_def)

lemma cycle_decode:
  assumes "MIN_SAMPLES \<le> rs"
  shows "\<exists>b2 v. process_window nc sr rs buf = Inr (b2, v) \<and>
     cycle nc sr st rs buf =
       Inr (st\<lparr>buffer := b2, asciiMessage := asciiMessage st @ [word_of_int v]\<rparr>)"
proof -
  obtain b2 v where "process_window nc sr rs buf = Inr (b2, v)"
    using process_window_ok by blast
  then show ?thesis using assms by (simp add: cycle_def)
qed

lemma cycle_message:
  "\<exists>st'. cycle nc sr st rs buf = Inr st' \<and>
     (\<exists>bytes. asciiMessage st' = asciiMessage st @ bytes \<and>
        length bytes = (if MIN_SAMPLES \<le> rs then 1 else 0))"
proof (cases "rs < MIN_SAMPLES")
  case True
  then show ?thesis by (simp add: cycle_skip)
next
  case False
  then have "MIN_SAMPLES \<le> rs" by simp
  from cycle_decode [OF this, of nc sr buf st] show ?thesis
    using False by auto
qed

lemma decoded_windows_step:
  assumes "0 < frames"
  shows "decoded_windows frames =
     (if MIN_SAMPLES \<le> min CHUNK_SIZE frames then 1 else 0)
       + decoded_windows (frames - min CHUNK_SIZE frames)"
proof (cases "CHUNK_SIZE \<le> frames")
  case True
  then have "frames div CHUNK_SIZE = Suc ((frames - CHUNK_SIZE) div CHUNK_SIZE)"
    "frames mod CHUNK_SIZE = (frames - CHUNK_SIZE) mod CHUNK_SIZE"
    by (simp_all add: le_div_geq le_mod_geq CHUNK_SIZE_def SAMPLE_RATE_def)
  moreover have "min CHUNK_SIZE frames = CHUNK_SIZE" "MIN_SAMPLES \<le> CHUNK_SIZE"
    using True by (simp_all add: CHUNK_SIZE_def SAMPLE_RATE_def MIN_SAMPLES_def)
  ultimately show ?thesis
    by (simp add: decoded_windows_def)
next
  case False
  then have "min CHUNK_SIZE frames = frames" "frames div CHUNK_SIZE = 0"
    "frames mod CHUNK_SIZE = frames" by simp_all
  then show ?thesis
    by (simp add: decoded_windows_def MIN_SAMPLES_def)
qed

lemma decoded_windows_0: "decoded_windows 0 = 0"
  by (simp add: decoded_windows_def MIN_SAMPLES_def)

lemma session_loop_unfold:
  "session_loop nc sr st wav =
     (if 0 < min CHUNK_SIZE (length wav div nc)
      then (case cycle nc sr st (min CHUNK_SIZE (length wav div nc))
                  (take (min CHUNK_SIZE (length wav div nc) * nc) wav
                   @ drop (min CHUNK_SIZE (length wav div nc) * nc) (buffer st)) of
              Inl e \<Rightarrow> Inl e
            | Inr st' \<Rightarrow>
                session_loop nc sr st' (drop (min CHUNK_SIZE (length wav div nc) * nc) wav))
      else Inr st)"
  by (subst session_loop.simps) (simp only: sf_readf_double_def Let_def prod.case)

lemma session_loop_message:
  "\<exists>st'. session_loop nc sr st wav = Inr st' \<and>
     (\<exists>bytes. asciiMessage st' = asciiMessage st @ bytes \<and>
        length bytes = decoded_windows (length wav div nc))"
proof (induction nc sr st wav rule: session_loop.induct)
  case (1 nc sr st wav)
  let ?F = "length wav div nc"
  let ?rs = "min CHUNK_SIZE ?F"
  let ?buf = "take (?rs * nc) wav @ drop (?rs * nc) (buffer st)"
  let ?rest = "drop (?rs * nc) wav"
  have rd: "sf_readf_double nc wav (buffer st) = (?rs, ?buf, ?rest)"
    by (simp add: sf_readf_double_def Let_def)
  show ?case
  proof (cases "0 < ?rs")
    case False
    then have "?F = 0" by (simp add: CHUNK_SIZE_def SAMPLE_RATE_def)
    moreover have "session_loop nc sr st wav = Inr st"
      using False by (subst session_loop_unfold) (simp only: if_False)
    ultimately show ?thesis by (simp add: decoded_windows_0)
  next
    case True
    then have F: "0 < ?F" by simp
    then have nc: "0 < nc" by (simp add: div_greater_zero_iff)
    obtain st1 bytes1 where c: "cycle nc sr st ?rs ?buf = Inr st1"
      and m1: "asciiMessage st1 = asciiMessage st @ bytes1"
      and l1: "length bytes1 = (if MIN_SAMPLES \<le> ?rs then 1 else 0)"
      using cycle_message [of nc sr st ?rs ?buf] by blast
    obtain st2 bytes2 where s2: "session_loop nc sr st1 ?rest = Inr st2"
      and m2: "asciiMessage st2 = asciiMessage st1 @ bytes2"
      and l2: "length bytes2 = decoded_windows (length ?rest div nc)"
      using "1.IH" [OF rd [symmetric] refl True c] by blast
    have "?rs * nc \<le> ?F * nc" by simp
    also have "\<dots> \<le> length wav" by simp
    finally have le: "?rs * nc \<le> length wav" .
    have "(length ?rest + ?rs * nc) div nc = length ?rest div nc + ?rs"
      using nc by simp
    moreover have "length ?rest + ?rs * nc = length wav"
      using le by simp
    ultimately have "?F = length ?rest div nc + ?rs"
      by (simp only:)
    then have "length ?rest div nc = ?F - ?rs"
      by linarith
    then have "length (bytes1 @ bytes2) = decoded_windows ?F"
      using l1 l2 decoded_windows_step [OF F] by simp
    moreover have "session_loop nc sr st wav = Inr st2"
      using True by (subst session_loop_unfold) (simp only: if_True c sum.case s2)
    moreover have "asciiMessage st2 = asciiMessage st @ (bytes1 @ bytes2)"
      using m1 m2 by simp
    ultimately show ?thesis by blast
  qed
qed

text \<open>
  Claim C6. A cycle that read fewer than \<open>MIN_SAMPLES = 44000\<close> frames leaves the message
  as it was, whatever the buffer holds; a cycle that read at least that many appends
  exactly one byte, the byte value decoded from the window; and the whole run only
  appends: the final message is the initial one followed by one byte for each window that
  reached the decoder.
\<close>

theorem session_tail_drop_append_one:
  "MIN_SAMPLES = 44000
   \<and> (readSamples < MIN_SAMPLES \<longrightarrow>
        (\<exists>st'. cycle numChannels sampleRate st readSamples buf = Inr st'
               \<and> asciiMessage st' = asciiMessage st))
   \<and> (MIN_SAMPLES \<le> readSamples \<longrightarrow>
        (\<exists>st' b2 v. process_window numChannels sampleRate readSamples buf = Inr (b2, v)
               \<and> cycle numChannels sampleRate st readSamples buf = Inr st'
               \<and> asciiMessage st' = asciiMessage st @ [word_of_int v]))
   \<and> (\<exists>st' bytes. session_loop numChannels sampleRate st wav = Inr st'
               \<and> asciiMessage st' = asciiMessage st @ bytes
               \<and> length bytes = decoded_windows (length wav div numChannels))"
proof -
  have a: "\<exists>st'. cycle numChannels sampleRate st readSamples buf = Inr st'
               \<and> asciiMessage st' = asciiMessage st" if "readSamples < MIN_SAMPLES"
    using that by (simp add: cycle_skip)
  have b: "\<exists>st' b2 v. process_window numChannels sampleRate readSamples buf = Inr (b2, v)
               \<and> cycle numChannels sampleRate st readSamples buf = Inr st'
               \<and> asciiMessage st' = asciiMessage st @ [word_of_int v]"
    if "MIN_SAMPLES \<le> readSamples"
  proof -
    from cycle_decode [OF that, of numChannels sampleRate buf st]
    obtain b2 v where "process_window numChannels sampleRate readSamples buf = Inr (b2, v)"
      "cycle numChannels sampleRate st readSamples buf =
         Inr (st\<lparr>buffer := b2, asciiMessage := asciiMessage st @ [word_of_int v]\<rparr>)"
      by blast
    then show ?thesis by simp
  qed
  have c: "\<exists>st' bytes. session_loop numChannels sampleRate st wav = Inr st'
               \<and> asciiMessage st' = asciiMessage st @ bytes
               \<and> length bytes = decoded_windows (length wav div numChannels)"
    using session_loop_message [of numChannels sampleRate st wav] by blast
  from a b c show ?thesis by (simp add: MIN_SAMPLES_def)
qed

text \<open>A mono file of 44200 frames: the first window of 44100 frames is decoded, the
  tail of 100 frames is dropped. A read of 43999 frames adds nothing, one of 44000 adds a
  byte.\<close>

theorem session_tail_drop_append_one_witness:
  "(\<exists>st'. cycle 1 44100 (session_init 1) 43999 (replicate 44100 0) = Inr st'
          \<and> asciiMessage st' = [])
   \<and> (\<exists>st' c. cycle 1 44100 (session_init 1) 44000 (replicate 44100 0) = Inr st'
          \<and> asciiMessage st' = [c])
   \<and> (\<exists>st' bytes. session_loop 1 44100 (session_init 1) (replicate 44200 0) = Inr st'
          \<and> asciiMessage st' = bytes \<and> length bytes = 1)"
proof -
  have d: "decoded_windows (length (replicate 44200 (0::real)) div 1) = 1"
    by (simp add: decoded_windows_def CHUNK_SIZE_def SAMPLE_RATE_def MIN_SAMPLES_def)
  have m: "asciiMessage (session_init 1) = []"
    by (simp add: session_init_def)
  have lo: "(43999::nat) < MIN_SAMPLES" and hi: "MIN_SAMPLES \<le> (44000::nat)"
    by (simp_all add: MIN_SAMPLES_def)
  from lo session_tail_drop_append_one [of 43999 1 44100 "session_init 1" "replicate 44100 0" "[]"]
  have "\<exists>st'. cycle 1 44100 (session_init 1) 43999 (replicate 44100 0) = Inr st'
          \<and> asciiMessage st' = asciiMessage (session_init 1)"
    by blast
  then have 1: "\<exists>st'. cycle 1 44100 (session_init 1) 43999 (replicate 44100 0) = Inr st'
          \<and> asciiMessage st' = []"
    unfolding m .
  from hi session_tail_drop_append_one [of 44000 1 44100 "session_init 1" "replicate 44100 0" "[]"]
  have "\<exists>st' v. cycle 1 44100 (session_init 1) 44000 (replicate 44100 0) = Inr st'
          \<and> asciiMessage st' = asciiMessage (session_init 1) @ [word_of_int v]"
    by blast
  then have 2: "\<exists>st' c. cycle 1 44100 (session_init 1) 44000 (replicate 44100 0) = Inr st'
          \<and> asciiMessage st' = [c]"
    unfolding m by auto
  from session_tail_drop_append_one [of 0 1 44100 "session_init 1" "[]" "replicate 44200 0"]
  have "\<exists>st' bytes. session_loop 1 44100 (session_init 1) (replicate 44200 0) = Inr st'
          \<and> asciiMessage st' = asciiMessage (session_init 1) @ bytes
          \<and> length bytes = decoded_windows (length (replicate 44200 (0::real)) div 1)"
    by blast
  then have 3: "\<exists>st' bytes. session_loop 1 44100 (session_init 1) (replicate 44200 0) = Inr st'
          \<and> asciiMessage st' = bytes \<and> length bytes = 1"
    unfolding m d by simp
  from 1 2 3 show ?thesis by blast
qed

text \<open>
  Claim C4 on the code. In a window of 44100 stereo frames whose every sample, in both
  channels, is 1/2, the down-mix of lines 183 to 194 leaves 1/4 at sample index 0 (the
  loop clears \<open>buffer[0]\<close> and then reads it back as the left sample of frame 0), 1/2 at
  index 1, and 0 at index 22050 (the zero fill of line 183 starts at element
  \<open>readSamples\<close> of the interleaved buffer and wipes the frames from 22050 on before they
  are mixed).
\<close>

theorem downmix_identical_channels_diverges:
  "downmix 2 44100 (zero_fill 44100 (replicate 88200 (1 / 2))) ! 0 = 1 / 4
   \<and> downmix 2 44100 (zero_fill 44100 (replicate 88200 (1 / 2))) ! 1 = 1 / 2
   \<and> downmix 2 44100 (zero_fill 44100 (replicate 88200 (1 / 2))) ! 22050 = 0"
  by (simp add: downmix_stereo_nth length_zero_fill zero_fill_nth)

section \<open>Properties of the synthesizer\<close>

lemma bits_step_foldl:
  "foldl bits_step (bs, ws) msg =
     (bs @ map (\<lambda>c. c = CHR ''1'') (filter is_binary_digit msg),
      ws @ filter (\<lambda>c. \<not> is_binary_digit c) msg)"
  by (induction msg arbitrary: bs ws) (auto simp: bits_step_def is_binary_digit_def)

lemma binary_to_bits_filter:
  "binary_to_bits msg =
     (map (\<lambda>c. c = CHR ''1'') (filter is_binary_digit msg),
      filter (\<lambda>c. \<not> is_binary_digit c) msg)"
  by (simp add: binary_to_bits_def bits_step_foldl)

text \<open>
  Claim C9 on the code. \<open>binary_to_bits\<close> of the single-tone generator does what the
  claim says (\<open>binary_to_bits_filter\<close>): every character other than \<open>0\<close> and \<open>1\<close> is
  left out and warned about, the other bits are kept in order. \<open>binary_to_bytes\<close> of the
  multi-tone generator does not: the message \<open>2\<close> raises \<open>std::invalid_argument\<close>, and
  in \<open>0a000001\<close> the chunk is cut at the \<open>a\<close> without a warning and becomes the byte 0,
  where \<open>binary_to_bits\<close> keeps the seven bits \<open>0000001\<close> and warns about \<open>a\<close>.
\<close>

theorem binary_to_bytes_malformed:
  "binary_to_bytes ''2'' = Inl InvalidArgument
   \<and> binary_to_bytes ''0a000001'' = Inr [0]
   \<and> binary_to_bits ''0a000001'' = ([False, False, False, False, False, False, True], ''a'')
   \<and> binary_to_bits ''2'' = ([], ''2'')"
  by (simp add: binary_to_bytes.simps stoi_def is_space_def is_binary_digit_def
      binary_to_bits_filter)

lemma collect_length: "collect rs = Inr xs \<Longrightarrow> length xs = length rs"
proof (induction rs arbitrary: xs)
  case Nil then show ?case by simp
next
  case (Cons r rs)
  then show ?case
    by (cases r) (auto split: sum.splits)
qed

lemma sine_gen_length:
  assumes "sine_gen msg bps level khz = Inr samples" "binary_to_bytes msg = Inr bytes"
  shows "\<exists>n. num_samples (length bytes) bps khz = Inr n \<and> length samples = unat n"
  using assms by (auto simp: sine_gen_def synthesize_def Let_def split: sum.splits dest: collect_length)

lemma num_samples_floor:
  fixes byteCount :: nat
  defines "P \<equiv> \<lambda>bps khz. dmul (dmul (ddiv 1 bps) (real byteCount)) (dmul khz 1000)"
  assumes "0 < bps" "0 < khz" "P bps khz < 2 ^ 32"
  shows "num_samples byteCount bps khz = Inr (word_of_int \<lfloor>P bps khz\<rfloor>)"
    and "unat (word_of_int \<lfloor>P bps khz\<rfloor> :: 32 word) = nat \<lfloor>P bps khz\<rfloor>"
    and "0 \<le> P bps khz"
proof -
  let ?x = "P bps khz"
  show x0: "0 \<le> ?x" using assms(2,3)
    unfolding P_def dmul_def ddiv_def by (intro fl_nonneg mult_nonneg_nonneg) simp_all
  have rng: "- 1 < ?x \<and> ?x < 2 ^ 32" using x0 assms(4) by linarith
  have "double_to_uint32 ?x = Inr (word_of_int (c_trunc ?x))"
    unfolding double_to_uint32_def using rng by (simp only: if_True simp_thms)
  also have "c_trunc ?x = \<lfloor>?x\<rfloor>"
    unfolding c_trunc_def using x0 by (simp only: if_True simp_thms)
  finally have d: "double_to_uint32 ?x = Inr (word_of_int \<lfloor>?x\<rfloor>)" .
  have "bps \<noteq> 0" using assms(2) by simp
  then have "num_samples byteCount bps khz = double_to_uint32 ?x"
    unfolding num_samples_def Let_def P_def by (simp only: if_False simp_thms)
  then show "num_samples byteCount bps khz = Inr (word_of_int \<lfloor>?x\<rfloor>)"
    unfolding d .
  have "0 \<le> \<lfloor>?x\<rfloor>" using x0 by simp
  moreover have "\<lfloor>?x\<rfloor> < 2 ^ 32" using assms(4) by (simp add: floor_less_iff)
  ultimately show "unat (word_of_int \<lfloor>?x\<rfloor> :: 32 word) = nat \<lfloor>?x\<rfloor>"
    by (simp add: unat_eq_nat_uint uint_word_of_int take_bit_int_eq_self)
qed

lemma fl_441: "fl 44.1 = 6206523236469965 / 2 ^ 47"
  by (subst fl_eval_ge [of 5]) (simp_all add: rne_def)

lemma rate_441: "dmul (fl 44.1) 1000 = 44100"
  unfolding dmul_def fl_441 by (subst fl_eval_ge [of 15]) (simp_all add: rne_def)

lemma product_49: "dmul (dmul (ddiv 1 49) (real 49)) (dmul (fl 44.1) 1000) = 6061057848115199 / 2 ^ 37"
proof -
  have 1: "ddiv 1 49 = 5882252574524729 / 2 ^ 58"
    unfolding ddiv_def by (subst fl_eval_lt [of 6]) (simp_all add: rne_def)
  have 2: "dmul (5882252574524729 / 2 ^ 58) (real 49) = 9007199254740991 / 2 ^ 53"
    unfolding dmul_def by (subst fl_eval_lt [of 1]) (simp_all add: rne_def)
  have 3: "dmul (9007199254740991 / 2 ^ 53) 44100 = 6061057848115199 / 2 ^ 37"
    unfolding dmul_def by (subst fl_eval_ge [of 15]) (simp_all add: rne_def)
  show ?thesis unfolding 1 2 rate_441 3 ..
qed

lemma product_3: "dmul (dmul (ddiv 1 16) (real 3)) (dmul (fl 44.1) 1000) = 33075 / 4"
proof -
  have 1: "ddiv 1 16 = 1 / 16"
    unfolding ddiv_def by (subst fl_eval_lt [of 4]) (simp_all add: rne_def)
  have 2: "dmul (1 / 16) (real 3) = 3 / 16"
    unfolding dmul_def by (subst fl_eval_lt [of 3]) (simp_all add: rne_def)
  have 3: "dmul (3 / 16) 44100 = 33075 / 4"
    unfolding dmul_def by (subst fl_eval_ge [of 13]) (simp_all add: rne_def)
  show ?thesis unfolding 1 2 rate_441 3 ..
qed

text \<open>
  Claim C8, as the code has it. For positive \<open>bps\<close> and sample rate, the sample count is
  the binary64 value of \<open>(1.0 / bps) * byteCount * (sample_rate_khz * 1000.0)\<close>, each of
  the four operations rounded, with its fraction cut off (the conversion to \<open>uint32_t\<close>
  truncates; it does not round to nearest), as long as that value is below \<open>2 ^ 32\<close>;
  and that count is the length of the sample vector \<open>sine_gen\<close> builds.
\<close>

theorem num_samples_truncates:
  assumes "0 < bps" "0 < sample_rate_khz"
    and "dmul (dmul (ddiv 1 bps) (real byteCount)) (dmul sample_rate_khz 1000) < 2 ^ 32"
  shows "num_samples byteCount bps sample_rate_khz =
           Inr (word_of_int \<lfloor>dmul (dmul (ddiv 1 bps) (real byteCount)) (dmul sample_rate_khz 1000)\<rfloor>)
       \<and> (\<forall>msg bytes level_dbfs samples.
             binary_to_bytes msg = Inr bytes \<and> length bytes = byteCount
             \<and> sine_gen msg bps level_dbfs sample_rate_khz = Inr samples
             \<longrightarrow> int (length samples) =
                   \<lfloor>dmul (dmul (ddiv 1 bps) (real byteCount)) (dmul sample_rate_khz 1000)\<rfloor>)"
proof -
  let ?x = "dmul (dmul (ddiv 1 bps) (real byteCount)) (dmul sample_rate_khz 1000)"
  note n = num_samples_floor [OF assms]
  have "int (length samples) = \<lfloor>?x\<rfloor>"
    if "binary_to_bytes msg = Inr bytes \<and> length bytes = byteCount
        \<and> sine_gen msg bps level_dbfs sample_rate_khz = Inr samples"
    for msg bytes level_dbfs samples
  proof -
    from sine_gen_length [of msg bps level_dbfs sample_rate_khz samples bytes] that
    obtain k where "num_samples byteCount bps sample_rate_khz = Inr k" "length samples = unat k"
      by auto
    with n have "length samples = nat \<lfloor>?x\<rfloor>" by simp
    moreover have "0 \<le> \<lfloor>?x\<rfloor>" using n(3) by simp
    ultimately show ?thesis by simp
  qed
  with n(1) show ?thesis by blast
qed

text \<open>At 44.1 kHz, three bytes at 16 bytes per second give 8268 samples, and 49 bytes
  at 49 bytes per second give 44099 samples, one less than 44100: \<open>1.0 / 49\<close> is rounded
  down, and the product with 49 is \<open>1 - 2 ^ -53\<close>. One byte at 1 byte per second and
  1 Hz gives the single sample 0.\<close>

theorem num_samples_truncates_witness:
  "num_samples 3 16 (fl 44.1) = Inr 8268
   \<and> num_samples 49 49 (fl 44.1) = Inr 44099
   \<and> sine_gen ''01000001'' 1 (- 3) 0.001 = Inr [0]"
proof -
  have p: "(0::real) < fl 44.1" unfolding fl_441 by simp
  have 1: "num_samples 3 16 (fl 44.1) = Inr 8268"
    using num_samples_truncates [of 16 "fl 44.1" 3] p unfolding product_3 by simp
  have 2: "num_samples 49 49 (fl 44.1) = Inr 44099"
    using num_samples_truncates [of 49 "fl 44.1" 49] p unfolding product_49 by simp
  have b: "binary_to_bytes ''01000001'' = Inr [65]"
    by (simp add: binary_to_bytes.simps stoi_def is_space_def is_binary_digit_def)
  have s: "sine_gen ''01000001'' 1 (- 3) 0.001 = Inr [0]"
    by (simp add: sine_gen_def synthesize_def b num_samples_def double_to_uint32_def c_trunc_def
      sample_value_def double_to_int_def double_to_int16_def upt_rec dmul_def ddiv_def dadd_def
      dsin_def)
  have "int (length [0 :: 16 word]) = \<lfloor>dmul (dmul (ddiv 1 1) (real 1)) (dmul 0.001 1000)\<rfloor>"
    using num_samples_truncates [of 1 "0.001" 1] b s by (simp add: dmul_def ddiv_def)
  with 1 2 s show ?thesis by simp
qed

text \<open>
  Claim C8 as the specification words it (rounded to the nearest integer) fails: three
  bytes at 16 bytes per second and 44.1 kHz last 8268.75 sample periods, every
  operation on the way being exact; the code allocates 8268 samples, rounding gives
  8269.
\<close>

theorem num_samples_round_counterexample:
  "num_samples 3 16 (fl 44.1) = Inr 8268
   \<and> unat (8268 :: 32 word) \<noteq> nat (round (real 3 / 16 * 44100))"
proof -
  have "num_samples 3 16 (fl 44.1) = Inr 8268"
    unfolding num_samples_def Let_def product_3
    by (simp add: double_to_uint32_def c_trunc_def)
  then show ?thesis by (simp add: round_def)
qed

section \<open>Properties of the round trip\<close>

subsection \<open>The classifier inverts the tone selection\<close>

lemma bit_value_iff: "bit_value w i \<longleftrightarrow> bit w (7 - i)"
  by (simp add: bit_value_def and_one_eq bit_iff_odd_drop_bit mod_2_eq_odd)

lemma freq_table_eq: "freq_table = bitFrequencyPairs"
  by (simp add: freq_table_def bitFrequencyPairs_def)

lemma no_low_match:
  "\<forall>f\<in>set fs. \<not> \<bar>f - fst p\<bar> < 50 \<Longrightarrow> \<not> bit0Detected s \<Longrightarrow>
   \<not> bit0Detected (foldl (scan_step p) s fs)"
  by (induction fs arbitrary: s) (simp_all add: scan_step_def Let_def)

lemma no_high_match:
  "\<forall>f\<in>set fs. \<not> \<bar>f - snd p\<bar> < 50 \<Longrightarrow> \<not> bit1Detected s \<Longrightarrow>
   \<not> bit1Detected (foldl (scan_step p) s fs)"
  by (induction fs arbitrary: s) (simp_all add: scan_step_def Let_def)

lemma classify_position:
  assumes "i < 8"
    and "\<exists>f\<in>set fs. \<bar>f - tone b i\<bar> < 50"
    and "\<forall>f\<in>set fs. \<not> \<bar>f - other_tone b i\<bar> < 50"
  shows "classify_bits fs ! i = (if bit_value b i then 1 else 0)"
proof -
  let ?p = "bitFrequencyPairs ! i"
  from assms(2) obtain f where f: "f \<in> set fs" "\<bar>f - tone b i\<bar> < 50" by blast
  show ?thesis
  proof (cases "bit_value b i")
    case True
    with f have "\<bar>f - snd ?p\<bar> < 50" by (simp add: tone_def freq_table_eq)
    with f(1) have "bit0Detected (scan_bit ?p fs) \<or> bit1Detected (scan_bit ?p fs)"
      by (intro scan_bit_detected [of f]) simp_all
    moreover have "\<not> bit0Detected (scan_bit ?p fs)"
      unfolding scan_bit_def using assms(3) True
      by (intro no_low_match) (simp_all add: other_tone_def freq_table_eq scan_init_def)
    ultimately show ?thesis
      using True assms(1) by (simp add: classify_bits_nth)
  next
    case False
    have "\<not> bit1Detected (scan_bit ?p fs)"
      unfolding scan_bit_def using assms(3) False
      by (intro no_high_match) (simp_all add: other_tone_def freq_table_eq scan_init_def)
    then show ?thesis
      using False assms(1) by (simp add: classify_bits_nth)
  qed
qed

lemma classify_recovers:
  assumes "\<forall>i<8. (\<exists>f\<in>set fs. \<bar>f - tone b i\<bar> < 50) \<and> (\<forall>f\<in>set fs. \<not> \<bar>f - other_tone b i\<bar> < 50)"
  shows "frequenciesToByte fs = uint b"
proof (rule bit_eqI)
  fix k
  have "bit (frequenciesToByte fs) k \<longleftrightarrow> k < 8 \<and> classify_bits fs ! (7 - k) \<noteq> 0"
    by (simp add: frequenciesToByte_def assemble_byte_bit)
  also have "\<dots> \<longleftrightarrow> k < 8 \<and> bit_value b (7 - k)"
  proof (cases "k < 8")
    case True
    then have "7 - k < 8" by simp
    with assms have "classify_bits fs ! (7 - k) = (if bit_value b (7 - k) then 1 else 0)"
      by (intro classify_position) auto
    then show ?thesis by simp
  next
    case False then show ?thesis by simp
  qed
  also have "\<dots> \<longleftrightarrow> k < 8 \<and> bit b k"
    by (auto simp: bit_value_iff)
  also have "\<dots> \<longleftrightarrow> bit (uint b) k"
    by (auto simp: bit_uint_iff dest: bit_imp_le_length)
  finally show "bit (frequenciesToByte fs) k \<longleftrightarrow> bit (uint b) k" .
qed

lemma table_entry: "i < 8 \<Longrightarrow> freq_table ! i = (300 + 400 * real i, 500 + 400 * real i)"
proof -
  assume "i < 8"
  then have "i \<in> {0, 1, 2, 3, 4, 5, 6, 7}" by auto
  then show ?thesis by (auto simp: freq_table_def)
qed

lemma tones_apart:
  assumes "i < 8" "j < 8"
  shows "\<not> \<bar>tone b j - other_tone b i\<bar> < 50"
proof -
  consider "i = j" | "i < j" | "j < i" by linarith
  then show ?thesis
  proof cases
    case 1
    then show ?thesis using assms by (simp add: tone_def other_tone_def table_entry)
  next
    case 2
    then have "real i + 1 \<le> real j" by linarith
    then show ?thesis
      using assms by (auto simp: tone_def other_tone_def table_entry)
  next
    case 3
    then have "real j + 1 \<le> real i" by linarith
    then show ?thesis
      using assms by (auto simp: tone_def other_tone_def table_entry)
  qed
qed

lemma classify_emitted_tones: "frequenciesToByte (map (tone b) [0..<8]) = uint b"
proof (rule classify_recovers, intro allI impI conjI)
  fix i :: nat assume i: "i < 8"
  then have "tone b i \<in> set (map (tone b) [0..<8])" by simp
  moreover have "\<bar>tone b i - tone b i\<bar> < 50" by simp
  ultimately show "\<exists>f\<in>set (map (tone b) [0..<8]). \<bar>f - tone b i\<bar> < 50" by blast
  show "\<forall>f\<in>set (map (tone b) [0..<8]). \<not> \<bar>f - other_tone b i\<bar> < 50"
    using i by (auto simp: tones_apart)
qed

end
